theory Spec2Isabelle
  imports Main "HOL-Library.Word" "HOL-Library.AList"
begin

section \<open>JavaScript strings\<close>

text \<open>
  A JavaScript string is a sequence of UTF-16 code units. The literals of the scripts
  are ASCII, so a literal is written as an Isabelle string and lifted by \<open>js\<close>.
\<close>

type_synonym jsstring = "16 word list"

definition js :: "string \<Rightarrow> jsstring" where
  "js s = map of_char s"

text \<open>
  \<open>String.prototype.trim\<close> removes WhiteSpace and LineTerminator code units from both
  ends; the class \<open>\s\<close> of a regular expression is the same set.
\<close>

definition is_space :: "16 word \<Rightarrow> bool" where
  "is_space c \<longleftrightarrow>
     c = 0x09 \<or> c = 0x0A \<or> c = 0x0B \<or> c = 0x0C \<or> c = 0x0D \<or> c = 0x20 \<or> c = 0xA0 \<or>
     c = 0x1680 \<or> (0x2000 \<le> c \<and> c \<le> 0x200A) \<or> c = 0x2028 \<or> c = 0x2029 \<or>
     c = 0x202F \<or> c = 0x205F \<or> c = 0x3000 \<or> c = 0xFEFF"

text \<open>The dot of a regular expression (no \<open>s\<close> flag) matches all but the line terminators.\<close>

definition is_line_terminator :: "16 word \<Rightarrow> bool" where
  "is_line_terminator c \<longleftrightarrow> c = 0x0A \<or> c = 0x0D \<or> c = 0x2028 \<or> c = 0x2029"

definition trim :: "jsstring \<Rightarrow> jsstring" where
  "trim s = rev (dropWhile is_space (rev (dropWhile is_space s)))"

text \<open>\<open>s.startsWith(p)\<close> and \<open>s.endsWith(p)\<close>.\<close>

definition startsWith :: "jsstring \<Rightarrow> jsstring \<Rightarrow> bool" where
  "startsWith s p \<longleftrightarrow> take (length p) s = p"

definition endsWith :: "jsstring \<Rightarrow> jsstring \<Rightarrow> bool" where
  "endsWith s p \<longleftrightarrow> length p \<le> length s \<and> drop (length s - length p) s = p"

text \<open>
  \<open>s.replace(pat, rep)\<close> with a string pattern replaces the first occurrence of
  \<open>pat\<close> only (\<open>rep\<close> holds no \<open>$\<close> pattern in the scripts).
\<close>

fun replace_first :: "jsstring \<Rightarrow> jsstring \<Rightarrow> jsstring \<Rightarrow> jsstring" where
  "replace_first pat rep [] = (if pat = [] then rep else [])"
| "replace_first pat rep (c # cs) =
     (if startsWith (c # cs) pat then rep @ drop (length pat) (c # cs)
      else c # replace_first pat rep cs)"

section \<open>The file-name validator of the creation flow\<close>

text \<open>
  \<^verbatim>\<open>
  validate: (input) => {
      if (!input || input.trim().length === 0) { return 'File name is required'; }
      if (!/^[a-zA-Z0-9_-]+$/.test(input.trim())) {
          return 'File name can only contain letters, numbers, underscores, and hyphens';
      }
      return true;
  }
  \<close>
  The prompt library accepts the answer when the validator returns \<open>true\<close> and asks
  again, showing the message, when it returns a string.
\<close>

datatype validation = Accepted | Rejected jsstring

text \<open>The class \<open>[a-zA-Z0-9_-]\<close>.\<close>

definition is_name_char :: "16 word \<Rightarrow> bool" where
  "is_name_char c \<longleftrightarrow>
     (0x61 \<le> c \<and> c \<le> 0x7A) \<or> (0x41 \<le> c \<and> c \<le> 0x5A) \<or> (0x30 \<le> c \<and> c \<le> 0x39) \<or>
     c = 0x5F \<or> c = 0x2D"

text \<open>\<open>/^[a-zA-Z0-9_-]+$/.test(s)\<close>: without the \<open>m\<close> flag the anchors are the two ends of \<open>s\<close>.\<close>

definition name_regex_test :: "jsstring \<Rightarrow> bool" where
  "name_regex_test s \<longleftrightarrow> s \<noteq> [] \<and> list_all is_name_char s"

definition validate :: "jsstring \<Rightarrow> validation" where
  "validate input =
     (if input = [] \<or> length (trim input) = 0 then Rejected (js ''File name is required'')
      else if \<not> name_regex_test (trim input) then
        Rejected (js ''File name can only contain letters, numbers, underscores, and hyphens'')
      else Accepted)"


section \<open>Paths (the POSIX functions of Node's \<open>path\<close> module)\<close>

definition slash :: "16 word" where
  "slash = 0x2F"

text \<open>\<open>s.split(d)\<close> for a one-character separator.\<close>

fun split_on :: "16 word \<Rightarrow> jsstring \<Rightarrow> jsstring list" where
  "split_on d [] = [[]]"
| "split_on d (c # cs) =
     (if c = d then [] # split_on d cs
      else (case split_on d cs of [] \<Rightarrow> [[c]] | s # ss \<Rightarrow> (c # s) # ss))"

text \<open>\<open>segs.join(sep)\<close>.\<close>

fun join_with :: "jsstring \<Rightarrow> jsstring list \<Rightarrow> jsstring" where
  "join_with sep [] = []"
| "join_with sep [s] = s"
| "join_with sep (s # t # ss) = s @ sep @ join_with sep (t # ss)"

text \<open>
  The segment walk of \<open>normalizeString\<close>: empty segments and \<open>.\<close> are dropped; \<open>..\<close>
  removes the segment before it when there is one that is not itself \<open>..\<close>, and is
  otherwise kept (relative path, \<open>keep = True\<close>) or dropped (absolute path).
\<close>

fun norm_segs :: "bool \<Rightarrow> jsstring list \<Rightarrow> jsstring list \<Rightarrow> jsstring list" where
  "norm_segs keep acc [] = acc"
| "norm_segs keep acc (s # ss) =
     (if s = [] \<or> s = js ''.'' then norm_segs keep acc ss
      else if s = js ''..'' then
        (if acc \<noteq> [] \<and> last acc \<noteq> js ''..'' then norm_segs keep (butlast acc) ss
         else if keep then norm_segs keep (acc @ [s]) ss
         else norm_segs keep acc ss)
      else norm_segs keep (acc @ [s]) ss)"

text \<open>\<open>path.normalize(p)\<close>.\<close>

definition path_normalize :: "jsstring \<Rightarrow> jsstring" where
  "path_normalize p =
     (if p = [] then js ''.''
      else
        let isAbsolute = (hd p = slash);
            trailingSeparator = (last p = slash);
            q = join_with [slash] (norm_segs (\<not> isAbsolute) [] (split_on slash p))
        in if q = [] then
             (if isAbsolute then [slash] else if trailingSeparator then js ''./'' else js ''.'')
           else
             (if isAbsolute then [slash] else []) @ q @ (if trailingSeparator then [slash] else []))"

text \<open>\<open>path.join(...args)\<close>: the non-empty arguments joined by \<open>/\<close>, then normalised.\<close>

definition path_join :: "jsstring list \<Rightarrow> jsstring" where
  "path_join args =
     (let joined = join_with [slash] (filter (\<lambda>a. a \<noteq> []) args)
      in if joined = [] then js ''.'' else path_normalize joined)"

text \<open>
  \<open>path.resolve(p)\<close>, as the list of the segments of the absolute path. The working
  directory of the process is taken as the root, so a \<open>..\<close> that would leave it stays
  there.
\<close>

definition path_resolve :: "jsstring \<Rightarrow> jsstring list" where
  "path_resolve p = norm_segs False [] (split_on slash p)"

text \<open>
  \<open>path.relative(from, to)\<close>: both resolved, the common leading segments removed, one
  \<open>..\<close> for every segment left of \<open>from\<close>, then what is left of \<open>to\<close>.
\<close>

fun strip_common :: "jsstring list \<Rightarrow> jsstring list \<Rightarrow> jsstring list \<times> jsstring list" where
  "strip_common (a # as) (b # bs) = (if a = b then strip_common as bs else (a # as, b # bs))"
| "strip_common as bs = (as, bs)"

definition path_relative :: "jsstring \<Rightarrow> jsstring \<Rightarrow> jsstring" where
  "path_relative from to =
     (case strip_common (path_resolve from) (path_resolve to) of
        (fs, ts) \<Rightarrow> join_with [slash] (replicate (length fs) (js ''..'') @ ts))"

text \<open>\<open>path.basename(p)\<close>: trailing separators are ignored; what follows the last other one.\<close>

definition path_basename :: "jsstring \<Rightarrow> jsstring" where
  "path_basename p =
     rev (takeWhile (\<lambda>c. c \<noteq> slash) (dropWhile (\<lambda>c. c = slash) (rev p)))"

section \<open>Fixed locations\<close>

definition WEBRESOURCES_DIR :: jsstring where
  "WEBRESOURCES_DIR = js ''./src/webresources''"

definition DIST_DIR :: jsstring where
  "DIST_DIR = js ''./dist''"

definition CONFIG_FILE :: jsstring where
  "CONFIG_FILE = js ''./webresource-mapping.json''"

section \<open>The mapping key of a compiled artifact\<close>

text \<open>
  Both \<open>syncWebResources\<close> and \<open>syncFile\<close> compute
  \<^verbatim>\<open>
  const relativePath = path.relative(DIST_DIR, compiledFile);
  const tsFileName = relativePath.replace('.js', '.ts');
  \<close>
\<close>

definition relativePath :: "jsstring \<Rightarrow> jsstring" where
  "relativePath compiledFile = path_relative DIST_DIR compiledFile"

definition tsFileName :: "jsstring \<Rightarrow> jsstring" where
  "tsFileName compiledFile = replace_first (js ''.js'') (js ''.ts'') (relativePath compiledFile)"


section \<open>The file system\<close>

text \<open>
  The directory tree below the working directory. A file holds its text (what
  \<open>readFileSync(p, 'utf8')\<close> returns) and whether it may be written; a directory
  holds its entries in the order in which \<open>readdirSync\<close> lists them.
\<close>

datatype perm = ReadWrite | ReadOnly

datatype node = File perm jsstring | Dir "(jsstring \<times> node) list"

datatype errno = ENOENT | ENOTDIR | EISDIR | EACCES

text \<open>What a script can throw: a system error of \<open>fs\<close>, or one of the language's errors.\<close>

datatype error = SystemError errno | SyntaxError | TypeError

fun lookup :: "node \<Rightarrow> jsstring list \<Rightarrow> errno + node" where
  "lookup n [] = Inr n"
| "lookup (File m c) (s # ss) = Inl ENOTDIR"
| "lookup (Dir es) (s # ss) =
     (case map_of es s of None \<Rightarrow> Inl ENOENT | Some child \<Rightarrow> lookup child ss)"

text \<open>A path with a trailing separator names a directory only.\<close>

definition stat :: "node \<Rightarrow> jsstring \<Rightarrow> errno + node" where
  "stat root p =
     (case lookup root (path_resolve p) of
        Inl e \<Rightarrow> Inl e
      | Inr (Dir es) \<Rightarrow> Inr (Dir es)
      | Inr (File m c) \<Rightarrow> if p \<noteq> [] \<and> last p = slash then Inl ENOTDIR else Inr (File m c))"

definition existsSync :: "node \<Rightarrow> jsstring \<Rightarrow> bool" where
  "existsSync root p = (case stat root p of Inl e \<Rightarrow> False | Inr n \<Rightarrow> True)"

definition isDirectory :: "node \<Rightarrow> bool" where
  "isDirectory n = (case n of Dir es \<Rightarrow> True | File m c \<Rightarrow> False)"

definition readFileSync :: "node \<Rightarrow> jsstring \<Rightarrow> error + jsstring" where
  "readFileSync root p =
     (case stat root p of
        Inl e \<Rightarrow> Inl (SystemError e)
      | Inr (Dir es) \<Rightarrow> Inl (SystemError EISDIR)
      | Inr (File m c) \<Rightarrow> Inr c)"

definition readdirSync :: "node \<Rightarrow> jsstring \<Rightarrow> error + jsstring list" where
  "readdirSync root p =
     (case stat root p of
        Inl e \<Rightarrow> Inl (SystemError e)
      | Inr (File m c) \<Rightarrow> Inl (SystemError ENOTDIR)
      | Inr (Dir es) \<Rightarrow> Inr (map fst es))"

text \<open>
  Writing the whole text of the file at a path: an existing file is overwritten when it
  may be written, a missing one is created in its (existing) directory.
\<close>

fun put :: "node \<Rightarrow> jsstring list \<Rightarrow> jsstring \<Rightarrow> errno + node" where
  "put (File m c) [] new = (if m = ReadOnly then Inl EACCES else Inr (File m new))"
| "put (Dir es) [] new = Inl EISDIR"
| "put (File m c) (s # ss) new = Inl ENOTDIR"
| "put (Dir es) (s # ss) new =
     (case map_of es s of
        None \<Rightarrow> if ss = [] then Inr (Dir (es @ [(s, File ReadWrite new)])) else Inl ENOENT
      | Some child \<Rightarrow>
          (case put child ss new of
             Inl e \<Rightarrow> Inl e
           | Inr child' \<Rightarrow> Inr (Dir (AList.update s child' es))))"

definition writeFileSync :: "node \<Rightarrow> jsstring \<Rightarrow> jsstring \<Rightarrow> error + node" where
  "writeFileSync root p text =
     (if p \<noteq> [] \<and> last p = slash then Inl (SystemError EISDIR)
      else case put root (path_resolve p) text of
             Inl e \<Rightarrow> Inl (SystemError e)
           | Inr root' \<Rightarrow> Inr root')"

text \<open>
  The tree with the node at a path replaced, or removed (\<open>None\<close>); nothing changes when
  the path names nothing, and the root is not removed.
\<close>

fun replace :: "node \<Rightarrow> jsstring list \<Rightarrow> node option \<Rightarrow> node" where
  "replace n [] x = (case x of None \<Rightarrow> n | Some n' \<Rightarrow> n')"
| "replace (File m c) (s # ss) x = File m c"
| "replace (Dir es) (s # ss) x =
     (case map_of es s of
        None \<Rightarrow> Dir es
      | Some child \<Rightarrow>
          if ss = [] then
            (case x of None \<Rightarrow> Dir (AList.delete s es) | Some n \<Rightarrow> Dir (AList.update s n es))
          else Dir (AList.update s (replace child ss x) es))"

text \<open>
  \<open>fs.copyFileSync(src, dest)\<close>, as the library of the runtime does it on a POSIX
  system: the source is opened for reading; the destination is opened for
  writing, and created when it is missing; when the two are the same file nothing more
  is done; otherwise the destination is emptied, takes the permission of the source and
  then its text. When the copy fails once the destination is open (reading a source
  that is a directory fails), the destination is removed. The result is the error
  thrown, if any, and the tree that the call leaves.
\<close>

definition copyFileSync :: "node \<Rightarrow> jsstring \<Rightarrow> jsstring \<Rightarrow> error option \<times> node" where
  "copyFileSync root src dest =
     (case stat root src of
        Inl e \<Rightarrow> (Some (SystemError e), root)
      | Inr source \<Rightarrow>
          (case writeFileSync root dest [] of
             Inl e \<Rightarrow> (Some e, root)
           | Inr opened \<Rightarrow>
               if path_resolve src = path_resolve dest then (None, root)
               else
                 (case source of
                    File m text \<Rightarrow> (None, replace opened (path_resolve dest) (Some (File m text)))
                  | Dir es \<Rightarrow>
                      (Some (SystemError EISDIR), replace opened (path_resolve dest) None))))"

section \<open>The descriptor of an asset folder\<close>

text \<open>
  \<open>content.match(/KEY:\s*(.+)/)\<close> is the leftmost match, found by backtracking. The
  greedy \<open>\s*\<close> takes the longest run of white space with which the rest of the
  pattern still matches; \<open>(.+)\<close>, the last item, then takes every character up to the
  next line terminator and needs at least one.
\<close>

definition dot_plus :: "jsstring \<Rightarrow> jsstring option" where
  "dot_plus s =
     (let g = takeWhile (\<lambda>c. \<not> is_line_terminator c) s in if g = [] then None else Some g)"

fun spaces_then :: "(jsstring \<Rightarrow> jsstring option) \<Rightarrow> jsstring \<Rightarrow> jsstring option" where
  "spaces_then k [] = k []"
| "spaces_then k (c # cs) =
     (if is_space c then (case spaces_then k cs of Some g \<Rightarrow> Some g | None \<Rightarrow> k (c # cs))
      else k (c # cs))"

definition field_match_at :: "jsstring \<Rightarrow> jsstring \<Rightarrow> jsstring option" where
  "field_match_at key s =
     (if startsWith s key then spaces_then dot_plus (drop (length key) s) else None)"

text \<open>The capture group of the first match, or \<open>None\<close> when \<open>match\<close> returns \<open>null\<close>.\<close>

fun field_match :: "jsstring \<Rightarrow> jsstring \<Rightarrow> jsstring option" where
  "field_match key [] = field_match_at key []"
| "field_match key (c # cs) =
     (case field_match_at key (c # cs) of Some g \<Rightarrow> Some g | None \<Rightarrow> field_match key cs)"

record info =
  dir :: jsstring
  name :: "jsstring option"
  displayName :: "jsstring option"
  fileName :: "jsstring option"

text \<open>
  \<^verbatim>\<open>
  function getWebResourceInfo(webResourceDir) {
      const ymlPath = path.join(WEBRESOURCES_DIR, webResourceDir, 'webresource.yml');
      if (!fs.existsSync(ymlPath)) { return null; }
      const content = fs.readFileSync(ymlPath, 'utf8');
      const nameMatch = content.match(/Name:\s*(.+)/);
      const displayNameMatch = content.match(/DisplayName:\s*(.+)/);
      const fileNameMatch = content.match(/FileName:\s*(.+)/);
      return { dir: webResourceDir,
               name: nameMatch ? nameMatch[1].trim() : null,
               displayName: displayNameMatch ? displayNameMatch[1].trim() : null,
               fileName: fileNameMatch ? fileNameMatch[1].trim() : null };
  }
  \<close>
  The read is not guarded: when it throws, so does the function.
\<close>

definition parse_descriptor :: "jsstring \<Rightarrow> jsstring \<Rightarrow> info" where
  "parse_descriptor webResourceDir content =
     \<lparr> dir = webResourceDir,
       name = map_option trim (field_match (js ''Name:'') content),
       displayName = map_option trim (field_match (js ''DisplayName:'') content),
       fileName = map_option trim (field_match (js ''FileName:'') content) \<rparr>"

definition ymlPath :: "jsstring \<Rightarrow> jsstring" where
  "ymlPath webResourceDir = path_join [WEBRESOURCES_DIR, webResourceDir, js ''webresource.yml'']"

definition getWebResourceInfo :: "node \<Rightarrow> jsstring \<Rightarrow> error + info option" where
  "getWebResourceInfo root webResourceDir =
     (if \<not> existsSync root (ymlPath webResourceDir) then Inr None
      else case readFileSync root (ymlPath webResourceDir) of
             Inl e \<Rightarrow> Inl e
           | Inr content \<Rightarrow> Inr (Some (parse_descriptor webResourceDir content)))"


section \<open>JSON\<close>

datatype json =
    JNull
  | JBool bool
  | JNumber jsstring
  | JString jsstring
  | JArray "json list"
  | JObject "(jsstring \<times> json) list"

text \<open>
  A number is kept as its numeral. An object is the list of its properties, in the order
  in which \<open>JSON.stringify\<close> enumerates them; its keys are distinct. That order is the
  order in which the properties were created, for every key that is not an array index
  (a decimal numeral such as \<open>7\<close>); the keys of a mapping table are file names, and
  where a mapping file has such a key the list keeps it where the text has it.

  A mapping table is an object whose values are strings.
\<close>

type_synonym table = "(jsstring \<times> jsstring) list"

definition json_of_table :: "table \<Rightarrow> json" where
  "json_of_table t = JObject (map (\<lambda>(k, v). (k, JString v)) t)"

fun string_of_json :: "json \<Rightarrow> jsstring option" where
  "string_of_json (JString s) = Some s"
| "string_of_json v = None"

fun members_of_table :: "(jsstring \<times> json) list \<Rightarrow> table option" where
  "members_of_table [] = Some []"
| "members_of_table ((k, v) # ms) =
     (case (string_of_json v, members_of_table ms) of
        (Some s, Some t) \<Rightarrow> Some ((k, s) # t)
      | _ \<Rightarrow> None)"

fun table_of_json :: "json \<Rightarrow> table option" where
  "table_of_json (JObject ms) = members_of_table ms"
| "table_of_json v = None"

subsection \<open>\<open>JSON.stringify(table, null, 2)\<close>\<close>

definition hex_digit :: "nat \<Rightarrow> 16 word" where
  "hex_digit d = (if d < 10 then 0x30 + of_nat d else 0x61 + of_nat (d - 10))"

text \<open>\<open>\uXXXX\<close>, in lower case as \<open>JSON.stringify\<close> writes it.\<close>

definition unicode_escape :: "16 word \<Rightarrow> jsstring" where
  "unicode_escape c =
     [0x5C, 0x75, hex_digit (unat c div 4096), hex_digit (unat c div 256 mod 16),
      hex_digit (unat c div 16 mod 16), hex_digit (unat c mod 16)]"

definition is_high_surrogate :: "16 word \<Rightarrow> bool" where
  "is_high_surrogate c \<longleftrightarrow> 0xD800 \<le> c \<and> c \<le> 0xDBFF"

definition is_low_surrogate :: "16 word \<Rightarrow> bool" where
  "is_low_surrogate c \<longleftrightarrow> 0xDC00 \<le> c \<and> c \<le> 0xDFFF"

text \<open>One code unit that is not a surrogate.\<close>

definition quote_unit :: "16 word \<Rightarrow> jsstring" where
  "quote_unit c =
     (if c = 0x08 then [0x5C, 0x62]
      else if c = 0x09 then [0x5C, 0x74]
      else if c = 0x0A then [0x5C, 0x6E]
      else if c = 0x0C then [0x5C, 0x66]
      else if c = 0x0D then [0x5C, 0x72]
      else if c = 0x22 then [0x5C, 0x22]
      else if c = 0x5C then [0x5C, 0x5C]
      else if c < 0x20 then unicode_escape c
      else [c])"

text \<open>
  The text between the quotes. A surrogate pair is written as it is; a surrogate that
  is not part of a pair is escaped.
\<close>

fun quote_body :: "jsstring \<Rightarrow> jsstring" where
  "quote_body [] = []"
| "quote_body [c] =
     (if is_high_surrogate c \<or> is_low_surrogate c then unicode_escape c else quote_unit c)"
| "quote_body (c # d # cs) =
     (if is_high_surrogate c then
        (if is_low_surrogate d then c # d # quote_body cs
         else unicode_escape c @ quote_body (d # cs))
      else if is_low_surrogate c then unicode_escape c @ quote_body (d # cs)
      else quote_unit c @ quote_body (d # cs))"

definition quote :: "jsstring \<Rightarrow> jsstring" where
  "quote s = [0x22] @ quote_body s @ [0x22]"

definition stringify_member :: "jsstring \<times> jsstring \<Rightarrow> jsstring" where
  "stringify_member kv = js ''  '' @ quote (fst kv) @ js '': '' @ quote (snd kv)"

definition stringify_table :: "table \<Rightarrow> jsstring" where
  "stringify_table t =
     (if t = [] then js ''{}''
      else js ''{\<newline>'' @ join_with (js '',\<newline>'') (map stringify_member t) @ js ''\<newline>}'')"

subsection \<open>\<open>JSON.parse(text)\<close>\<close>

definition is_json_ws :: "16 word \<Rightarrow> bool" where
  "is_json_ws c \<longleftrightarrow> c = 0x20 \<or> c = 0x09 \<or> c = 0x0A \<or> c = 0x0D"

definition skip_ws :: "jsstring \<Rightarrow> jsstring" where
  "skip_ws s = dropWhile is_json_ws s"

definition is_digit :: "16 word \<Rightarrow> bool" where
  "is_digit c \<longleftrightarrow> 0x30 \<le> c \<and> c \<le> 0x39"

definition hex_value :: "16 word \<Rightarrow> nat option" where
  "hex_value c =
     (if 0x30 \<le> c \<and> c \<le> 0x39 then Some (unat c - 0x30)
      else if 0x61 \<le> c \<and> c \<le> 0x66 then Some (unat c - 0x61 + 10)
      else if 0x41 \<le> c \<and> c \<le> 0x46 then Some (unat c - 0x41 + 10)
      else None)"

text \<open>The character an escape \<open>\c\<close> stands for (\<open>\u\<close> apart).\<close>

definition simple_escape :: "16 word \<Rightarrow> 16 word option" where
  "simple_escape e =
     (if e = 0x22 then Some 0x22
      else if e = 0x5C then Some 0x5C
      else if e = 0x2F then Some 0x2F
      else if e = 0x62 then Some 0x08
      else if e = 0x66 then Some 0x0C
      else if e = 0x6E then Some 0x0A
      else if e = 0x72 then Some 0x0D
      else if e = 0x74 then Some 0x09
      else None)"

definition code_unit :: "nat \<Rightarrow> nat \<Rightarrow> nat \<Rightarrow> nat \<Rightarrow> 16 word" where
  "code_unit a b c d = of_nat (a * 4096 + b * 256 + c * 16 + d)"

definition cons_fst :: "'a \<Rightarrow> ('a list \<times> 'b) option \<Rightarrow> ('a list \<times> 'b) option" where
  "cons_fst x r = map_option (\<lambda>(xs, rest). (x # xs, rest)) r"

text \<open>
  A string, from the character after its opening quote: the decoded text and what
  follows the closing quote.
\<close>

fun parse_string :: "jsstring \<Rightarrow> (jsstring \<times> jsstring) option" where
  "parse_string [] = None"
| "parse_string (c # cs) =
     (if c = 0x22 then Some ([], cs)
      else if c = 0x5C then
        (case cs of
           [] \<Rightarrow> None
         | e # r \<Rightarrow>
             if e = 0x75 then
               (case r of
                  h1 # h2 # h3 # h4 # r' \<Rightarrow>
                    (case (hex_value h1, hex_value h2, hex_value h3, hex_value h4) of
                       (Some a, Some b, Some c', Some d) \<Rightarrow>
                         cons_fst (code_unit a b c' d) (parse_string r')
                     | _ \<Rightarrow> None)
                | _ \<Rightarrow> None)
             else
               (case simple_escape e of
                  None \<Rightarrow> None
                | Some u \<Rightarrow> cons_fst u (parse_string r)))
      else if c < 0x20 then None
      else cons_fst c (parse_string cs))"

text \<open>At least one digit.\<close>

definition parse_digits :: "jsstring \<Rightarrow> (jsstring \<times> jsstring) option" where
  "parse_digits s =
     (if takeWhile is_digit s = [] then None else Some (takeWhile is_digit s, dropWhile is_digit s))"

text \<open>\<open>-? (0 | [1-9][0-9]*) (. [0-9]+)? ([eE] [+-]? [0-9]+)?\<close>\<close>

definition parse_int_part :: "jsstring \<Rightarrow> (jsstring \<times> jsstring) option" where
  "parse_int_part s =
     (case s of
        [] \<Rightarrow> None
      | c # cs \<Rightarrow>
          if c = 0x30 then Some ([c], cs)
          else if is_digit c then Some (c # takeWhile is_digit cs, dropWhile is_digit cs)
          else None)"

definition parse_frac_part :: "jsstring \<Rightarrow> (jsstring \<times> jsstring) option" where
  "parse_frac_part s =
     (case s of
        [] \<Rightarrow> Some ([], [])
      | c # cs \<Rightarrow> if c = 0x2E then cons_fst c (parse_digits cs) else Some ([], s))"

definition parse_exp_part :: "jsstring \<Rightarrow> (jsstring \<times> jsstring) option" where
  "parse_exp_part s =
     (case s of
        [] \<Rightarrow> Some ([], [])
      | c # cs \<Rightarrow>
          if c = 0x65 \<or> c = 0x45 then
            (case cs of
               [] \<Rightarrow> None
             | g # ds \<Rightarrow>
                 if g = 0x2B \<or> g = 0x2D then cons_fst c (cons_fst g (parse_digits ds))
                 else cons_fst c (parse_digits cs))
          else Some ([], s))"

definition parse_number :: "jsstring \<Rightarrow> (jsstring \<times> jsstring) option" where
  "parse_number s =
     (let (sign, s0) = (case s of [] \<Rightarrow> ([], s) | c # cs \<Rightarrow> if c = 0x2D then ([c], cs) else ([], s))
      in case parse_int_part s0 of
           None \<Rightarrow> None
         | Some (i, s1) \<Rightarrow>
             (case parse_frac_part s1 of
                None \<Rightarrow> None
              | Some (f, s2) \<Rightarrow>
                  (case parse_exp_part s2 of
                     None \<Rightarrow> None
                   | Some (e, s3) \<Rightarrow> Some (sign @ i @ f @ e, s3))))"

text \<open>A later property of the same name replaces the value of the earlier one, in its place.\<close>

definition object_of_members :: "(jsstring \<times> json) list \<Rightarrow> (jsstring \<times> json) list" where
  "object_of_members ms = foldl (\<lambda>obj (k, v). AList.update k v obj) [] ms"

text \<open>
  A value, from its first character. The first argument bounds the number of nested
  calls; \<open>JSON_parse\<close> gives a bound that is enough for every text.
\<close>

fun parse_value :: "nat \<Rightarrow> jsstring \<Rightarrow> (json \<times> jsstring) option"
  and parse_elements :: "nat \<Rightarrow> jsstring \<Rightarrow> (json list \<times> jsstring) option"
  and parse_members :: "nat \<Rightarrow> jsstring \<Rightarrow> ((jsstring \<times> json) list \<times> jsstring) option"
where
  "parse_value 0 s = None"
| "parse_value (Suc n) s =
     (case s of
        [] \<Rightarrow> None
      | c # cs \<Rightarrow>
          if c = 0x7B then
            (case skip_ws cs of
               [] \<Rightarrow> None
             | d # r \<Rightarrow>
                 if d = 0x7D then Some (JObject [], r)
                 else map_option (\<lambda>(ms, r'). (JObject (object_of_members ms), r'))
                        (parse_members n (d # r)))
          else if c = 0x5B then
            (case skip_ws cs of
               [] \<Rightarrow> None
             | d # r \<Rightarrow>
                 if d = 0x5D then Some (JArray [], r)
                 else map_option (\<lambda>(vs, r'). (JArray vs, r')) (parse_elements n (d # r)))
          else if c = 0x22 then map_option (\<lambda>(str, r). (JString str, r)) (parse_string cs)
          else if startsWith s (js ''true'') then Some (JBool True, drop 4 s)
          else if startsWith s (js ''false'') then Some (JBool False, drop 5 s)
          else if startsWith s (js ''null'') then Some (JNull, drop 4 s)
          else map_option (\<lambda>(num, r). (JNumber num, r)) (parse_number s))"
| "parse_elements 0 s = None"
| "parse_elements (Suc n) s =
     (case parse_value n s of
        None \<Rightarrow> None
      | Some (v, r) \<Rightarrow>
          (case skip_ws r of
             [] \<Rightarrow> None
           | d # r' \<Rightarrow>
               if d = 0x2C then cons_fst v (parse_elements n (skip_ws r'))
               else if d = 0x5D then Some ([v], r')
               else None))"
| "parse_members 0 s = None"
| "parse_members (Suc n) s =
     (case s of
        [] \<Rightarrow> None
      | q # cs \<Rightarrow>
          if q \<noteq> 0x22 then None
          else
            (case parse_string cs of
               None \<Rightarrow> None
             | Some (k, r) \<Rightarrow>
                 (case skip_ws r of
                    [] \<Rightarrow> None
                  | colon # r1 \<Rightarrow>
                      if colon \<noteq> 0x3A then None
                      else
                        (case parse_value n (skip_ws r1) of
                           None \<Rightarrow> None
                         | Some (v, r2) \<Rightarrow>
                             (case skip_ws r2 of
                                [] \<Rightarrow> None
                              | d # r3 \<Rightarrow>
                                  if d = 0x2C then cons_fst (k, v) (parse_members n (skip_ws r3))
                                  else if d = 0x7D then Some ([(k, v)], r3)
                                  else None)))))"

text \<open>\<open>None\<close> stands for the \<open>SyntaxError\<close> that \<open>JSON.parse\<close> throws.\<close>

definition JSON_parse :: "jsstring \<Rightarrow> json option" where
  "JSON_parse text =
     (case parse_value (Suc (length text)) (skip_ws text) of
        None \<Rightarrow> None
      | Some (v, r) \<Rightarrow> if skip_ws r = [] then Some v else None)"


section \<open>Console output, and what a call does to the world\<close>

text \<open>One constructor for every \<open>console.log\<close> and \<open>console.error\<close> of the sync script.\<close>

datatype message =
    NoMappingFile
  | MappingReadError error
  | NoDistDirectory
  | WebResourcesDirNotFound
  | NoJsFiles jsstring
  | Synced jsstring jsstring
  | SyncFailed jsstring error
  | SyncStarted
  | NoCompiledFiles
  | AvailableHeader
  | AvailableItem nat jsstring jsstring
  | BlankLine
  | MappedDirNotFound jsstring
  | NoMappingFor jsstring
  | SyncComplete nat
  | CommitHint

text \<open>
  A line of the console is recorded with the compiled file in whose loop iteration it
  is printed (\<open>None\<close> outside the loop).
\<close>

record world =
  tree :: node
  console :: "(jsstring option \<times> message) list"

definition say :: "jsstring option \<Rightarrow> message \<Rightarrow> world \<Rightarrow> world" where
  "say during m w = w\<lparr>console := console w @ [(during, m)]\<rparr>"

text \<open>
  A call returns a value or throws; either way it leaves a world behind. A run whose
  mapping file holds JSON that is not a mapping table is not followed.
\<close>

datatype 'a outcome = Returned 'a world | Thrown error world | NotFollowed

text \<open>A call of \<open>fs\<close> that reads.\<close>

definition reading :: "error + 'a \<Rightarrow> world \<Rightarrow> 'a outcome" where
  "reading r w = (case r of Inl e \<Rightarrow> Thrown e w | Inr x \<Rightarrow> Returned x w)"

text \<open>A call of \<open>fs\<close> that writes.\<close>

definition writing :: "error + node \<Rightarrow> world \<Rightarrow> unit outcome" where
  "writing r w = (case r of Inl e \<Rightarrow> Thrown e w | Inr root \<Rightarrow> Returned () (w\<lparr>tree := root\<rparr>))"

text \<open>A call of \<open>fs\<close> that can leave the tree changed also when it throws.\<close>

definition copying :: "error option \<times> node \<Rightarrow> world \<Rightarrow> unit outcome" where
  "copying r w =
     (case r of
        (Some e, root) \<Rightarrow> Thrown e (w\<lparr>tree := root\<rparr>)
      | (None, root) \<Rightarrow> Returned () (w\<lparr>tree := root\<rparr>))"

definition try_catch :: "'a outcome \<Rightarrow> (error \<Rightarrow> world \<Rightarrow> 'a outcome) \<Rightarrow> 'a outcome" where
  "try_catch body handler =
     (case body of
        Returned x w \<Rightarrow> Returned x w
      | Thrown e w \<Rightarrow> handler e w
      | NotFollowed \<Rightarrow> NotFollowed)"

section \<open>The mapping store\<close>

text \<open>
  The sync script:
  \<^verbatim>\<open>
  function loadMapping() {
      if (!fs.existsSync(CONFIG_FILE)) {
          console.log(chalk.yellow('No webresource-mapping.json found. Creating default mapping...'));
          return {};
      }
      try {
          const content = fs.readFileSync(CONFIG_FILE, 'utf8');
          return JSON.parse(content);
      } catch (error) {
          console.error(chalk.red('Error reading mapping file:'), error.message);
          return {};
      }
  }
  \<close>
\<close>

definition read_and_parse :: "world \<Rightarrow> json outcome" where
  "read_and_parse w =
     (case reading (readFileSync (tree w) CONFIG_FILE) w of
        Returned content w' \<Rightarrow>
          (case JSON_parse content of None \<Rightarrow> Thrown SyntaxError w' | Some v \<Rightarrow> Returned v w')
      | Thrown e w' \<Rightarrow> Thrown e w'
      | NotFollowed \<Rightarrow> NotFollowed)"

definition loadMapping :: "world \<Rightarrow> json outcome" where
  "loadMapping w =
     (if \<not> existsSync (tree w) CONFIG_FILE then Returned (JObject []) (say None NoMappingFile w)
      else try_catch (read_and_parse w)
             (\<lambda>error w'. Returned (JObject []) (say None (MappingReadError error) w')))"

text \<open>The creation script has the same function, without the message for a missing file.\<close>

definition loadMapping_new :: "world \<Rightarrow> json outcome" where
  "loadMapping_new w =
     (if \<not> existsSync (tree w) CONFIG_FILE then Returned (JObject []) w
      else try_catch (read_and_parse w)
             (\<lambda>error w'. Returned (JObject []) (say None (MappingReadError error) w')))"

text \<open>
  Both scripts:
  \<^verbatim>\<open>
  function saveMapping(mapping) {
      fs.writeFileSync(CONFIG_FILE, JSON.stringify(mapping, null, 2));
  }
  \<close>
\<close>

definition saveMapping :: "table \<Rightarrow> world \<Rightarrow> unit outcome" where
  "saveMapping mapping w = writing (writeFileSync (tree w) CONFIG_FILE (stringify_table mapping)) w"


section \<open>The sync script\<close>

text \<open>
  \<^verbatim>\<open>
  function getCompiledFiles() {
      if (!fs.existsSync(DIST_DIR)) {
          console.log(chalk.yellow('No dist directory found. Run npm run compile first.'));
          return [];
      }
      return glob.sync(`${DIST_DIR}/**/*.js`);
  }
  \<close>
  What \<open>glob.sync\<close> returns is an argument, \<open>found\<close>: the definitions hold for any
  traversal order and any way of writing the paths.
\<close>

definition getCompiledFiles :: "jsstring list \<Rightarrow> world \<Rightarrow> jsstring list outcome" where
  "getCompiledFiles found w =
     (if \<not> existsSync (tree w) DIST_DIR then Returned [] (say None NoDistDirectory w)
      else Returned found w)"

text \<open>
  \<^verbatim>\<open>
  function getWebResourceDirs() {
      if (!fs.existsSync(WEBRESOURCES_DIR)) {
          console.log(chalk.red('Web resources directory not found!'));
          return [];
      }
      return fs.readdirSync(WEBRESOURCES_DIR)
          .filter(dir => fs.statSync(path.join(WEBRESOURCES_DIR, dir)).isDirectory());
  }
  \<close>
\<close>

fun filter_directories :: "node \<Rightarrow> jsstring list \<Rightarrow> error + jsstring list" where
  "filter_directories root [] = Inr []"
| "filter_directories root (d # ds) =
     (case stat root (path_join [WEBRESOURCES_DIR, d]) of
        Inl e \<Rightarrow> Inl (SystemError e)
      | Inr n \<Rightarrow>
          (case filter_directories root ds of
             Inl e \<Rightarrow> Inl e
           | Inr rest \<Rightarrow> Inr (if isDirectory n then d # rest else rest)))"

definition getWebResourceDirs :: "world \<Rightarrow> jsstring list outcome" where
  "getWebResourceDirs w =
     (if \<not> existsSync (tree w) WEBRESOURCES_DIR then Returned [] (say None WebResourcesDirNotFound w)
      else case readdirSync (tree w) WEBRESOURCES_DIR of
             Inl e \<Rightarrow> Thrown e w
           | Inr entries \<Rightarrow> reading (filter_directories (tree w) entries) w)"

text \<open>
  The list that the run prints first:
  \<^verbatim>\<open>
  webResourceDirs.forEach((dir, index) => {
      const info = getWebResourceInfo(dir);
      console.log(`${index + 1}. ${info?.name || dir} (${info?.displayName || 'No display name'})`);
  });
  \<close>
\<close>

definition or_else :: "jsstring option \<Rightarrow> jsstring \<Rightarrow> jsstring" where
  "or_else v d = (case v of None \<Rightarrow> d | Some s \<Rightarrow> if s = [] then d else s)"

fun list_web_resources :: "nat \<Rightarrow> jsstring list \<Rightarrow> world \<Rightarrow> unit outcome" where
  "list_web_resources index [] w = Returned () w"
| "list_web_resources index (d # ds) w =
     (case getWebResourceInfo (tree w) d of
        Inl e \<Rightarrow> Thrown e w
      | Inr i \<Rightarrow>
          list_web_resources (index + 1) ds
            (say None (AvailableItem (index + 1)
                         (or_else (Option.bind i name) d)
                         (or_else (Option.bind i displayName) (js ''No display name''))) w))"

text \<open>
  \<^verbatim>\<open>
  function syncFile(sourceFile, targetDir, mapping) {
      const fileName = path.basename(sourceFile);
      const relativePath = path.relative(DIST_DIR, sourceFile);
      const tsFileName = relativePath.replace('.js', '.ts');
      const webResourceFiles = fs.readdirSync(targetDir).filter(f => f.endsWith('.js'));
      if (webResourceFiles.length === 0) {
          console.log(chalk.yellow(`No JS files found in ${targetDir}`));
          return false;
      }
      const targetFile = path.join(targetDir, webResourceFiles[0]);
      try {
          fs.copyFileSync(sourceFile, targetFile);
          const webResourceDir = path.basename(targetDir);
          mapping[tsFileName] = webResourceDir;
          console.log(chalk.green(`Synced ${fileName} -> ${path.basename(targetFile)}`));
          return true;
      } catch (error) {
          console.error(chalk.red(`Failed to sync ${fileName}:`), error.message);
          return false;
      }
  }
  \<close>
  The mapping is an object that the function updates in place; here it is returned with
  the flag. \<open>readdirSync\<close> stands outside the \<open>try\<close>.
\<close>

definition copy_and_record ::
  "jsstring \<Rightarrow> jsstring \<Rightarrow> jsstring \<Rightarrow> table \<Rightarrow> world \<Rightarrow> (bool \<times> table) outcome" where
  "copy_and_record sourceFile targetDir targetFile mapping w =
     (case copying (copyFileSync (tree w) sourceFile targetFile) w of
        Returned u w' \<Rightarrow>
          Returned (True, AList.update (tsFileName sourceFile) (path_basename targetDir) mapping)
            (say (Some sourceFile) (Synced (path_basename sourceFile) (path_basename targetFile)) w')
      | Thrown e w' \<Rightarrow> Thrown e w'
      | NotFollowed \<Rightarrow> NotFollowed)"

definition syncFile :: "jsstring \<Rightarrow> jsstring \<Rightarrow> table \<Rightarrow> world \<Rightarrow> (bool \<times> table) outcome" where
  "syncFile sourceFile targetDir mapping w =
     (case readdirSync (tree w) targetDir of
        Inl e \<Rightarrow> Thrown e w
      | Inr entries \<Rightarrow>
          (case filter (\<lambda>f. endsWith f (js ''.js'')) entries of
             [] \<Rightarrow> Returned (False, mapping) (say (Some sourceFile) (NoJsFiles targetDir) w)
           | first # others \<Rightarrow>
               try_catch
                 (copy_and_record sourceFile targetDir (path_join [targetDir, first]) mapping w)
                 (\<lambda>error w'.
                    Returned (False, mapping)
                      (say (Some sourceFile) (SyncFailed (path_basename sourceFile) error) w'))))"

text \<open>
  The names that every object inherits from \<open>Object.prototype\<close>: for these,
  \<open>mapping[key]\<close> is a function (for \<open>__proto__\<close>, an object) when the table has no
  such key of its own.
\<close>

definition inherited_names :: "jsstring list" where
  "inherited_names =
     [js ''constructor'', js ''__proto__'', js ''hasOwnProperty'', js ''isPrototypeOf'',
      js ''propertyIsEnumerable'', js ''toLocaleString'', js ''toString'', js ''valueOf'',
      js ''__defineGetter__'', js ''__defineSetter__'', js ''__lookupGetter__'',
      js ''__lookupSetter__'']"

text \<open>
  The body of the loop of \<open>syncWebResources\<close>:
  \<^verbatim>\<open>
  for (const compiledFile of compiledFiles) {
      const relativePath = path.relative(DIST_DIR, compiledFile);
      const tsFileName = relativePath.replace('.js', '.ts');
      if (mapping[tsFileName]) {
          const webResourceDir = mapping[tsFileName];
          const targetDir = path.join(WEBRESOURCES_DIR, webResourceDir);
          if (fs.existsSync(targetDir)) {
              if (syncFile(compiledFile, targetDir, mapping)) { syncCount++; }
          } else {
              console.log(chalk.yellow(`Mapped web resource directory not found: ${webResourceDir}`));
              delete mapping[tsFileName];
          }
      } else {
          console.log(chalk.yellow(`No mapping found for ${tsFileName}. ...`));
      }
  }
  \<close>
  The condition \<open>mapping[tsFileName]\<close> is false for a missing key and for the empty
  string. An inherited value is true and not a string, and \<open>path.join\<close> throws a
  \<open>TypeError\<close> for it.
\<close>

definition targetDir_of :: "jsstring \<Rightarrow> jsstring" where
  "targetDir_of webResourceDir = path_join [WEBRESOURCES_DIR, webResourceDir]"

definition sync_step :: "jsstring \<Rightarrow> table \<times> nat \<Rightarrow> world \<Rightarrow> (table \<times> nat) outcome" where
  "sync_step compiledFile st w =
     (case st of (mapping, syncCount) \<Rightarrow>
        (case map_of mapping (tsFileName compiledFile) of
           None \<Rightarrow>
             if tsFileName compiledFile \<in> set inherited_names then Thrown TypeError w
             else Returned (mapping, syncCount)
                    (say (Some compiledFile) (NoMappingFor (tsFileName compiledFile)) w)
         | Some webResourceDir \<Rightarrow>
             if webResourceDir = [] then
               Returned (mapping, syncCount)
                 (say (Some compiledFile) (NoMappingFor (tsFileName compiledFile)) w)
             else if existsSync (tree w) (targetDir_of webResourceDir) then
               (case syncFile compiledFile (targetDir_of webResourceDir) mapping w of
                  Returned (ok, mapping') w' \<Rightarrow>
                    Returned (mapping', if ok then syncCount + 1 else syncCount) w'
                | Thrown e w' \<Rightarrow> Thrown e w'
                | NotFollowed \<Rightarrow> NotFollowed)
             else
               Returned (AList.delete (tsFileName compiledFile) mapping, syncCount)
                 (say (Some compiledFile) (MappedDirNotFound webResourceDir) w)))"

fun sync_loop :: "jsstring list \<Rightarrow> table \<times> nat \<Rightarrow> world \<Rightarrow> (table \<times> nat) outcome" where
  "sync_loop [] st w = Returned st w"
| "sync_loop (compiledFile # rest) st w =
     (case sync_step compiledFile st w of
        Returned st' w' \<Rightarrow> sync_loop rest st' w'
      | Thrown e w' \<Rightarrow> Thrown e w'
      | NotFollowed \<Rightarrow> NotFollowed)"

text \<open>
  \<^verbatim>\<open>
  function syncWebResources() {
      console.log(chalk.blue('Syncing compiled TypeScript files to web resources...\n'));
      const mapping = loadMapping();
      const compiledFiles = getCompiledFiles();
      const webResourceDirs = getWebResourceDirs();
      if (compiledFiles.length === 0) {
          console.log(chalk.yellow('No compiled files found. Run npm run compile first.'));
          return;
      }
      console.log(chalk.cyan('Available web resources:'));
      webResourceDirs.forEach(...);
      console.log();
      let syncCount = 0;
      for (const compiledFile of compiledFiles) { ... }
      saveMapping(mapping);
      console.log(chalk.blue(`\nSync complete! ${syncCount} file(s) synced.`));
      if (syncCount > 0) { console.log(...); console.log(...); }
  }
  \<close>
  The part from the loop on, for a mapping that is a table:
\<close>

definition sync_and_save :: "jsstring list \<Rightarrow> table \<Rightarrow> world \<Rightarrow> nat outcome" where
  "sync_and_save compiledFiles mapping w =
     (case sync_loop compiledFiles (mapping, 0) w of
        Returned (mapping', syncCount) w1 \<Rightarrow>
          (case saveMapping mapping' w1 of
             Returned u w2 \<Rightarrow>
               Returned syncCount
                 (let w3 = say None (SyncComplete syncCount) w2
                  in if syncCount > 0 then say None CommitHint w3 else w3)
           | Thrown e w2 \<Rightarrow> Thrown e w2
           | NotFollowed \<Rightarrow> NotFollowed)
      | Thrown e w1 \<Rightarrow> Thrown e w1
      | NotFollowed \<Rightarrow> NotFollowed)"

text \<open>
  The run. The value returned is the count that the last message reports (\<open>None\<close> for
  the early return, which reports none).
\<close>

definition syncWebResources :: "jsstring list \<Rightarrow> world \<Rightarrow> nat option outcome" where
  "syncWebResources found w0 =
     (case loadMapping (say None SyncStarted w0) of
        Returned loaded w1 \<Rightarrow>
          (case getCompiledFiles found w1 of
             Returned compiledFiles w2 \<Rightarrow>
               (case getWebResourceDirs w2 of
                  Returned webResourceDirs w3 \<Rightarrow>
                    if compiledFiles = [] then Returned None (say None NoCompiledFiles w3)
                    else
                      (case list_web_resources 0 webResourceDirs (say None AvailableHeader w3) of
                         Returned u w4 \<Rightarrow>
                           (case table_of_json loaded of
                              None \<Rightarrow> NotFollowed
                            | Some mapping \<Rightarrow>
                                (case sync_and_save compiledFiles mapping (say None BlankLine w4) of
                                   Returned n w5 \<Rightarrow> Returned (Some n) w5
                                 | Thrown e w5 \<Rightarrow> Thrown e w5
                                 | NotFollowed \<Rightarrow> NotFollowed))
                       | Thrown e w4 \<Rightarrow> Thrown e w4
                       | NotFollowed \<Rightarrow> NotFollowed)
                | Thrown e w3 \<Rightarrow> Thrown e w3
                | NotFollowed \<Rightarrow> NotFollowed)
           | Thrown e w2 \<Rightarrow> Thrown e w2
           | NotFollowed \<Rightarrow> NotFollowed)
      | Thrown e w1 \<Rightarrow> Thrown e w1
      | NotFollowed \<Rightarrow> NotFollowed)"

text \<open>The table that the mapping file holds.\<close>

definition persisted :: "world \<Rightarrow> table option" where
  "persisted w =
     (case readFileSync (tree w) CONFIG_FILE of
        Inl e \<Rightarrow> None
      | Inr content \<Rightarrow> Option.bind (JSON_parse content) table_of_json)"


section \<open>Notions used to state the properties\<close>

text \<open>A name that a directory entry can have.\<close>

definition plain_name :: "jsstring \<Rightarrow> bool" where
  "plain_name s \<longleftrightarrow> s \<noteq> [] \<and> slash \<notin> set s \<and> s \<noteq> js ''.'' \<and> s \<noteq> js ''..''"

text \<open>A segment that the normalisation of a path keeps.\<close>

definition clean :: "jsstring \<Rightarrow> bool" where
  "clean s \<longleftrightarrow> s \<noteq> [] \<and> s \<noteq> js ''.'' \<and> s \<noteq> js ''..''"

text \<open>A tree all of whose entries have such names, as the trees of a file system do.\<close>

fun well_named :: "node \<Rightarrow> bool" where
  "well_named (File m c) = True"
| "well_named (Dir es) = (\<forall>e \<in> set es. plain_name (fst e) \<and> well_named (snd e))"

text \<open>The tree without the texts of its files: names, kinds and permissions.\<close>

fun shape :: "node \<Rightarrow> node" where
  "shape (File m c) = File m []"
| "shape (Dir es) = Dir (map (\<lambda>e. (fst e, shape (snd e))) es)"


text \<open>What a list of segments names: a directory (\<open>True\<close>), a file, or nothing.\<close>

definition kind :: "node \<Rightarrow> jsstring list \<Rightarrow> bool option" where
  "kind root q = (case lookup root q of Inl e \<Rightarrow> None | Inr n \<Rightarrow> Some (isDirectory n))"

text \<open>A path that names a regular file, one that may be written.\<close>

definition writable_file :: "node \<Rightarrow> jsstring \<Rightarrow> bool" where
  "writable_file root p =
     (case stat root p of
        Inl e \<Rightarrow> False
      | Inr (Dir es) \<Rightarrow> False
      | Inr (File m c) \<Rightarrow> m = ReadWrite)"

text \<open>
  An entry is stale in a run when its key is the key of a discovered artifact and the
  folder that its value names does not exist.
\<close>

definition stale :: "jsstring list \<Rightarrow> node \<Rightarrow> jsstring \<times> jsstring \<Rightarrow> bool" where
  "stale found root kv \<longleftrightarrow>
     fst kv \<in> tsFileName ` set found \<and> \<not> existsSync root (targetDir_of (snd kv))"

text \<open>Lines of the console printed outside the loop.\<close>

definition untagged :: "(jsstring option \<times> message) list \<Rightarrow> bool" where
  "untagged new \<longleftrightarrow> (\<forall>l \<in> set new. fst l = None)"

text \<open>The world that a call leaves, and the value that it returns.\<close>

definition world_after :: "'a outcome \<Rightarrow> world" where
  "world_after r =
     (case r of Returned x w \<Rightarrow> w | Thrown e w \<Rightarrow> w | NotFollowed \<Rightarrow> \<lparr>tree = Dir [], console = []\<rparr>)"

definition returned :: "'a outcome \<Rightarrow> 'a option" where
  "returned r = (case r of Returned x w \<Rightarrow> Some x | Thrown e w \<Rightarrow> None | NotFollowed \<Rightarrow> None)"

text \<open>
  The table that \<open>loadMapping\<close> returns: the table of the mapping file, or the empty
  table where the file is absent or cannot be read or parsed.
\<close>

definition loaded_table :: "world \<Rightarrow> table option" where
  "loaded_table w = Option.bind (returned (loadMapping w)) table_of_json"

section \<open>A small project tree, used to run the definitions\<close>

text \<open>
  One asset folder, \<open>folder-123\<close>, with its descriptor and one script; one compiled
  artifact, \<open>dist/widgetForm.js\<close>.
\<close>

definition example_descriptor :: jsstring where
  "example_descriptor = js ''Name: co_example\<newline>DisplayName: Example Form\<newline>''"

definition example_folder :: node where
  "example_folder =
     Dir [(js ''webresource.yml'', File ReadWrite example_descriptor),
          (js ''co_example.js'', File ReadWrite (js ''old();''))]"

definition example_root :: node where
  "example_root =
     Dir [(js ''dist'', Dir [(js ''widgetForm.js'', File ReadWrite (js ''compiled();''))]),
          (js ''src'', Dir [(js ''webresources'', Dir [(js ''folder-123'', example_folder)])])]"

text \<open>A project whose mapping file is cut short.\<close>

definition broken_root :: node where
  "broken_root = Dir [(js ''webresource-mapping.json'', File ReadWrite (js ''{ \"a.ts\": ''))]"

text \<open>A table, and the example project once the table is saved.\<close>

definition example_table :: table where
  "example_table = [(js ''widgetForm.ts'', js ''folder-123''), (js ''lib/util.ts'', js ''co_util'')]"

definition example_saved_root :: node where
  "example_saved_root =
     Dir [(js ''dist'', Dir [(js ''widgetForm.js'', File ReadWrite (js ''compiled();''))]),
          (js ''src'', Dir [(js ''webresources'', Dir [(js ''folder-123'', example_folder)])]),
          (js ''webresource-mapping.json'', File ReadWrite (stringify_table example_table))]"

text \<open>An asset folder whose descriptor gives the display name first.\<close>

definition swapped_root :: node where
  "swapped_root =
     Dir [(js ''src'', Dir [(js ''webresources'', Dir [(js ''folder-123'',
       Dir [(js ''webresource.yml'',
             File ReadWrite (js ''DisplayName: Example Form\<newline>Name: co_example\<newline>''))])])])]"

text \<open>
  A project with two compiled artifacts and two asset folders. The script of the first
  folder cannot be written; the mapping names a third folder, which does not exist.
\<close>

definition locked_table :: table where
  "locked_table =
     [(js ''widgetForm.ts'', js ''folder-123''), (js ''gone.ts'', js ''folder-999''),
      (js ''other.ts'', js ''folder-456'')]"

definition locked_webresources :: node where
  "locked_webresources =
     Dir [(js ''folder-123'', Dir [(js ''co_example.js'', File ReadOnly (js ''old();''))]),
          (js ''folder-456'', Dir [(js ''readme.txt'', File ReadWrite (js ''notes'')),
                                   (js ''co_other.js'', File ReadWrite (js ''old_other();''))])]"

definition locked_root :: node where
  "locked_root =
     Dir [(js ''dist'', Dir [(js ''widgetForm.js'', File ReadWrite (js ''compiled();'')),
                             (js ''gone.js'', File ReadWrite (js ''gone();'')),
                             (js ''other.js'', File ReadWrite (js ''other();''))]),
          (js ''src'', Dir [(js ''webresources'', locked_webresources)]),
          (js ''webresource-mapping.json'', File ReadWrite (stringify_table locked_table))]"

definition locked_found :: "jsstring list" where
  "locked_found = [js ''dist/widgetForm.js'', js ''dist/gone.js'', js ''dist/other.js'']"



definition locked_world :: world where
  "locked_world = \<lparr>tree = locked_root, console = []\<rparr>"

text \<open>The example project with a mapping whose value is written with a trailing separator.\<close>

definition slash_table :: table where
  "slash_table = [(js ''widgetForm.ts'', js ''folder-123/'')]"

definition slash_world :: world where
  "slash_world =
     \<lparr>tree =
        Dir [(js ''dist'', Dir [(js ''widgetForm.js'', File ReadWrite (js ''compiled();''))]),
             (js ''src'', Dir [(js ''webresources'', Dir [(js ''folder-123'', example_folder)])]),
             (js ''webresource-mapping.json'', File ReadWrite (stringify_table slash_table))],
      console = []\<rparr>"

text \<open>The example project with its mapping saved, before any run.\<close>

definition example_world :: world where
  "example_world = \<lparr>tree = example_saved_root, console = []\<rparr>"

text \<open>
  A project in which the build output holds a directory whose name ends in \<open>.js\<close>, which
  the search for compiled files returns with the files. The mapping is a parameter.
\<close>

definition bundle_root :: "table \<Rightarrow> node" where
  "bundle_root t =
     Dir [(js ''dist'', Dir [(js ''other.js'', File ReadWrite (js ''other();'')),
                             (js ''bundle.js'', Dir [])]),
          (js ''src'', Dir [(js ''webresources'',
             Dir [(js ''folder-123'', Dir [(js ''co_example.js'', File ReadWrite (js ''old();''))]),
                  (js ''folder-456'', Dir [(js ''readme.txt'', File ReadWrite (js ''notes'')),
                                           (js ''co_other.js'', File ReadWrite (js ''old_other();''))])])]),
          (js ''webresource-mapping.json'', File ReadWrite (stringify_table t))]"

definition bundle_found :: "jsstring list" where
  "bundle_found = [js ''dist/other.js'', js ''dist/bundle.js'']"

text \<open>The two artifacts mapped to two folders, and to one.\<close>

definition apart_table :: table where
  "apart_table = [(js ''other.ts'', js ''folder-456''), (js ''bundle.ts'', js ''folder-123'')]"

definition shared_table :: table where
  "shared_table = [(js ''other.ts'', js ''folder-456''), (js ''bundle.ts'', js ''folder-456'')]"

text \<open>The first of these projects once \<open>dist/other.js\<close> is copied, and once the copy of the directory has failed.\<close>

definition bundle_copied :: node where
  "bundle_copied =
     Dir [(js ''dist'', Dir [(js ''other.js'', File ReadWrite (js ''other();'')),
                             (js ''bundle.js'', Dir [])]),
          (js ''src'', Dir [(js ''webresources'',
             Dir [(js ''folder-123'', Dir [(js ''co_example.js'', File ReadWrite (js ''old();''))]),
                  (js ''folder-456'', Dir [(js ''readme.txt'', File ReadWrite (js ''notes'')),
                                           (js ''co_other.js'', File ReadWrite (js ''other();''))])])]),
          (js ''webresource-mapping.json'', File ReadWrite (stringify_table apart_table))]"

definition bundle_failed :: node where
  "bundle_failed =
     Dir [(js ''dist'', Dir [(js ''other.js'', File ReadWrite (js ''other();'')),
                             (js ''bundle.js'', Dir [])]),
          (js ''src'', Dir [(js ''webresources'',
             Dir [(js ''folder-123'', Dir []),
                  (js ''folder-456'', Dir [(js ''readme.txt'', File ReadWrite (js ''notes'')),
                                           (js ''co_other.js'', File ReadWrite (js ''other();''))])])]),
          (js ''webresource-mapping.json'', File ReadWrite (stringify_table apart_table))]"

text \<open>
  A project in which one entry of the mapping names a folder that does not exist and
  another names a plain file.
\<close>

definition abort_table :: table where
  "abort_table = [(js ''gone.ts'', js ''folder-999''), (js ''other.ts'', js ''notes.txt'')]"

definition abort_found :: "jsstring list" where
  "abort_found = [js ''dist/gone.js'', js ''dist/other.js'']"

definition abort_world :: world where
  "abort_world =
     \<lparr>tree =
        Dir [(js ''dist'', Dir [(js ''gone.js'', File ReadWrite (js ''gone();'')),
                                (js ''other.js'', File ReadWrite (js ''other();''))]),
             (js ''src'', Dir [(js ''webresources'',
                Dir [(js ''notes.txt'', File ReadWrite (js ''notes''))])]),
             (js ''webresource-mapping.json'', File ReadWrite (stringify_table abort_table))],
      console = []\<rparr>"

section \<open>Facts about strings\<close>

lemma js_Nil: "js [] = []"
  by (simp add: js_def)

lemma js_Cons: "js (c # cs) = of_char c # js cs"
  by (simp add: js_def)

lemma js_append: "js (a @ b) = js a @ js b"
  by (simp add: js_def)

lemma startsWith_append: "startsWith s p \<Longrightarrow> \<exists>post. s = p @ post"
  unfolding startsWith_def by (metis append_take_drop_id)

lemma startsWith_Nil: "startsWith s []"
  by (simp add: startsWith_def)

lemma occurs_Nil: "(\<exists>pre post. [] = pre @ key @ post) \<longleftrightarrow> key = []"
  by simp

lemma occurs_Cons:
  "(\<exists>pre post. c # cs = pre @ key @ post) \<longleftrightarrow>
   startsWith (c # cs) key \<or> (\<exists>pre post. cs = pre @ key @ post)"
proof
  assume "\<exists>pre post. c # cs = pre @ key @ post"
  then obtain pre post where eq: "c # cs = pre @ key @ post" by blast
  show "startsWith (c # cs) key \<or> (\<exists>pre post. cs = pre @ key @ post)"
  proof (cases pre)
    case Nil
    with eq have "startsWith (c # cs) key" by (simp add: startsWith_def)
    then show ?thesis ..
  next
    case (Cons a pre')
    with eq have "cs = pre' @ key @ post" by simp
    then show ?thesis by blast
  qed
next
  assume "startsWith (c # cs) key \<or> (\<exists>pre post. cs = pre @ key @ post)"
  then show "\<exists>pre post. c # cs = pre @ key @ post"
  proof
    assume "startsWith (c # cs) key"
    then obtain post where "c # cs = [] @ key @ post" using startsWith_append by fastforce
    then show ?thesis by blast
  next
    assume "\<exists>pre post. cs = pre @ key @ post"
    then obtain pre post where "cs = pre @ key @ post" by blast
    then have "c # cs = (c # pre) @ key @ post" by simp
    then show ?thesis by blast
  qed
qed

lemma not_occurs_NilI: "key \<noteq> [] \<Longrightarrow> \<nexists>pre post. [] = pre @ key @ post"
  by simp

lemma not_occurs_ConsI:
  "\<not> startsWith (c # cs) key \<Longrightarrow> \<nexists>pre post. cs = pre @ key @ post \<Longrightarrow>
   \<nexists>pre post. c # cs = pre @ key @ post"
  using occurs_Cons [of c cs key] by blast


section \<open>The validator: what it accepts\<close>

lemma trim_Nil: "trim [] = []"
  by (simp add: trim_def)

text \<open>
  C2, as amended. The validator tests the trimmed input: an input is accepted if and
  only if, once leading and trailing white space is removed, it is non-empty and made
  of letters, digits, underscores and hyphens only; every other input is rejected with
  one of the two messages.
\<close>

theorem validate_accepts_iff_trimmed:
  "validate input = Accepted \<longleftrightarrow> trim input \<noteq> [] \<and> list_all is_name_char (trim input)"
  by (auto simp: validate_def name_regex_test_def trim_Nil)

theorem validate_accepts_iff_trimmed_witness:
  "validate (js ''my-file_2'') = Accepted \<and> trim (js ''my-file_2'') \<noteq> [] \<and>
   list_all is_name_char (trim (js ''my-file_2''))"
  using validate_accepts_iff_trimmed [of "js ''my-file_2''"]
  by (simp add: js_def trim_def is_space_def is_name_char_def)

text \<open>
  C2 as stated fails: an input with a leading blank holds a character outside the
  allowed set, and the validator accepts it.
\<close>

theorem validate_untrimmed_counterexample:
  "\<not> (validate (js '' abc'') = Accepted \<longleftrightarrow>
        js '' abc'' \<noteq> [] \<and> list_all is_name_char (js '' abc''))"
  by (simp add: validate_def name_regex_test_def js_def trim_def is_space_def is_name_char_def)

section \<open>The mapping key: the first \<open>.js\<close> is the one replaced\<close>

text \<open>
  Where \<open>.js\<close> occurs in the relative path only as its extension, the first occurrence
  is the last.
\<close>

lemma replace_first_trailing:
  "\<nexists>u v. stem = u @ js ''.js'' @ v \<Longrightarrow>
   replace_first (js ''.js'') (js ''.ts'') (stem @ js ''.js'') = stem @ js ''.ts''"
proof (induction stem)
  case Nil
  show ?case by (simp add: js_def startsWith_def)
next
  case (Cons c cs)
  have inner: "\<nexists>u v. cs = u @ js ''.js'' @ v"
  proof
    assume "\<exists>u v. cs = u @ js ''.js'' @ v"
    then obtain u v where "cs = u @ js ''.js'' @ v" by blast
    then have "c # cs = (c # u) @ js ''.js'' @ v" by simp
    with Cons.prems show False by blast
  qed
  have "\<not> startsWith (c # cs @ js ''.js'') (js ''.js'')"
  proof
    assume a: "startsWith (c # cs @ js ''.js'') (js ''.js'')"
    show False
    proof (cases cs)
      case Nil
      with a show False by (simp add: startsWith_def js_def)
    next
      case (Cons c2 cs2)
      show False
      proof (cases cs2)
        case Nil
        with a Cons show False by (simp add: startsWith_def js_def)
      next
        case (Cons c3 cs3)
        with a \<open>cs = c2 # cs2\<close> have "c # cs = [] @ js ''.js'' @ cs3"
          by (simp add: startsWith_def js_def)
        with Cons.prems show False by blast
      qed
    qed
  qed
  then show ?case using Cons.IH [OF inner] by simp
qed

text \<open>
  C1. The key of an artifact is its path relative to the build-output root, with the
  first \<open>.js\<close> replaced by \<open>.ts\<close>. Where the relative path holds \<open>.js\<close> only at its end,
  this is the path with its trailing \<open>.js\<close> replaced, and the key ends in \<open>.ts\<close>. At
  other artifacts the code goes wrong: the source file \<open>data.json.ts\<close> compiles to
  \<open>dist/data.json.js\<close>; its relative path is \<open>data.json.js\<close>, and \<open>replace\<close> rewrites
  the \<open>.js\<close> inside \<open>.json\<close>, so the derived key is \<open>data.tson.js\<close>. It does not end
  in \<open>.ts\<close>, and it is not the relative path with the trailing \<open>.js\<close> replaced, which
  is \<open>data.json.ts\<close>.
\<close>

theorem tsFileName_replaces_first_occurrence:
  "(relativePath compiledFile = stem @ js ''.js'' \<and> (\<nexists>u v. stem = u @ js ''.js'' @ v) \<longrightarrow>
      tsFileName compiledFile = stem @ js ''.ts'' \<and>
      endsWith (tsFileName compiledFile) (js ''.ts'')) \<and>
   relativePath (js ''dist/data.json.js'') = js ''data.json.js'' \<and>
   tsFileName (js ''dist/data.json.js'') = js ''data.tson.js'' \<and>
   tsFileName (js ''dist/data.json.js'') \<noteq> js ''data.json.ts'' \<and>
   \<not> endsWith (tsFileName (js ''dist/data.json.js'')) (js ''.ts'')"
proof (intro conjI impI)
  assume a: "relativePath compiledFile = stem @ js ''.js'' \<and> (\<nexists>u v. stem = u @ js ''.js'' @ v)"
  then have k: "tsFileName compiledFile = stem @ js ''.ts''"
    by (simp add: tsFileName_def replace_first_trailing)
  then show "tsFileName compiledFile = stem @ js ''.ts''" .
  show "endsWith (tsFileName compiledFile) (js ''.ts'')"
    unfolding k by (simp add: endsWith_def js_def)
qed (simp_all add: tsFileName_def relativePath_def path_relative_def path_resolve_def
      DIST_DIR_def js_def slash_def startsWith_def endsWith_def)

lemma no_js_in_widgetForm: "\<nexists>u v. js ''widgetForm'' = u @ js ''.js'' @ v"
  unfolding js_Cons js_Nil
  by (intro not_occurs_ConsI not_occurs_NilI; simp add: startsWith_def)

theorem tsFileName_replaces_first_occurrence_witness:
  "relativePath (js ''dist/widgetForm.js'') = js ''widgetForm'' @ js ''.js'' \<and>
   tsFileName (js ''dist/widgetForm.js'') = js ''widgetForm.ts'' \<and>
   endsWith (tsFileName (js ''dist/widgetForm.js'')) (js ''.ts'')"
proof -
  have r: "relativePath (js ''dist/widgetForm.js'') = js ''widgetForm'' @ js ''.js''"
    by (simp add: relativePath_def path_relative_def path_resolve_def DIST_DIR_def js_def slash_def)
  have j: "js ''widgetForm'' @ js ''.ts'' = js ''widgetForm.ts''"
    by (simp add: js_def)
  show ?thesis
    using tsFileName_replaces_first_occurrence [of "js ''dist/widgetForm.js''" "js ''widgetForm''"]
      r no_js_in_widgetForm
    by (auto simp: j)
qed

section \<open>Reading a descriptor\<close>

lemma field_match_occurs:
  "field_match key content = Some g \<Longrightarrow> \<exists>pre post. content = pre @ key @ post"
proof (induction content)
  case Nil
  then show ?case
    by (auto simp: field_match_at_def dest: startsWith_append split: if_splits)
next
  case (Cons c cs)
  show ?case
  proof (cases "field_match_at key (c # cs)")
    case None
    with Cons.prems have "field_match key cs = Some g" by simp
    then obtain pre post where "cs = pre @ key @ post" using Cons.IH by blast
    then have "c # cs = (c # pre) @ key @ post" by simp
    then show ?thesis by blast
  next
    case (Some h)
    then have "startsWith (c # cs) key" by (simp add: field_match_at_def split: if_splits)
    then obtain post where "c # cs = [] @ key @ post" using startsWith_append by fastforce
    then show ?thesis by blast
  qed
qed

lemma field_match_absent:
  "\<nexists>pre post. content = pre @ key @ post \<Longrightarrow> field_match key content = None"
  using field_match_occurs by (cases "field_match key content") blast+

lemma getWebResourceInfo_absent:
  "\<not> existsSync root (ymlPath d) \<Longrightarrow> getWebResourceInfo root d = Inr None"
  by (simp add: getWebResourceInfo_def)

lemma getWebResourceInfo_present:
  "stat root (ymlPath d) = Inr (File m content) \<Longrightarrow>
   getWebResourceInfo root d = Inr (Some (parse_descriptor d content))"
  by (simp add: getWebResourceInfo_def existsSync_def readFileSync_def)

lemma field_match_skip:
  assumes "\<nexists>u v. p = u @ key @ v" and "p = [] \<or> last p \<notin> set key"
  shows "field_match key (p @ s) = field_match key s"
  using assms
proof (induction p)
  case Nil
  show ?case by simp
next
  case (Cons c cs)
  have "\<not> startsWith (c # cs @ s) key"
  proof
    assume "startsWith (c # cs @ s) key"
    then have k: "take (length key) ((c # cs) @ s) = key" by (simp add: startsWith_def)
    show False
    proof (cases "length key \<le> length (c # cs)")
      case True
      have "take (length key) ((c # cs) @ s) = take (length key) (c # cs)"
        using True by (simp only: take_append) simp
      with k have "take (length key) (c # cs) = key" by simp
      then have "c # cs = [] @ key @ drop (length key) (c # cs)"
        by (metis append_Nil append_take_drop_id)
      with Cons.prems(1) show False by blast
    next
      case False
      have "take (length key) ((c # cs) @ s) = (c # cs) @ take (length key - length (c # cs)) s"
        using False by (simp only: take_append) simp
      with k have "key = (c # cs) @ take (length key - length (c # cs)) s" by simp
      then have "set (c # cs) \<subseteq> set key" by (metis set_append Un_upper1)
      then have "last (c # cs) \<in> set key" using last_in_set [of "c # cs"] by blast
      with Cons.prems(2) show False by simp
    qed
  qed
  then have "field_match key ((c # cs) @ s) = field_match key (cs @ s)"
    by (simp add: field_match_at_def)
  moreover have "\<nexists>u v. cs = u @ key @ v"
  proof
    assume "\<exists>u v. cs = u @ key @ v"
    then obtain u v where "cs = u @ key @ v" by blast
    then have "c # cs = (c # u) @ key @ v" by simp
    with Cons.prems(1) show False by blast
  qed
  moreover have "cs = [] \<or> last cs \<notin> set key"
    using Cons.prems(2) by (cases cs) auto
  ultimately show ?case using Cons.IH by simp
qed

lemma line_terminator_not_in_key:
  "is_line_terminator c \<Longrightarrow> c \<notin> set (js ''Name:'')"
  "is_line_terminator c \<Longrightarrow> c \<notin> set (js ''DisplayName:'')"
  by (auto simp: is_line_terminator_def js_def)

lemma scenario_name_line:
  "mid \<noteq> [] \<Longrightarrow> is_line_terminator (hd mid) \<Longrightarrow>
   field_match (js ''Name:'') (js ''Name: co_example'' @ mid @ x) = Some (js ''co_example'')"
  by (cases mid) (auto simp: js_def field_match_at_def startsWith_def dot_plus_def is_space_def
      is_line_terminator_def)

lemma scenario_displayName_line:
  "rest = [] \<or> is_line_terminator (hd rest) \<Longrightarrow>
   field_match (js ''DisplayName:'') (js ''DisplayName: Example Form'' @ rest) =
   Some (js ''Example Form'')"
  by (cases rest) (auto simp: js_def field_match_at_def startsWith_def dot_plus_def is_space_def
      is_line_terminator_def)

lemma trim_co_example: "trim (js ''co_example'') = js ''co_example''"
  by (simp add: trim_def js_def is_space_def)

lemma trim_Example_Form: "trim (js ''Example Form'') = js ''Example Form''"
  by (simp add: trim_def js_def is_space_def)

lemma scenario_fields:
  assumes "pre = [] \<or> is_line_terminator (last pre)"
    and "mid \<noteq> []" "is_line_terminator (hd mid)" "is_line_terminator (last mid)"
    and "rest = [] \<or> is_line_terminator (hd rest)"
    and "\<nexists>u v. pre = u @ js ''Name:'' @ v"
    and "\<nexists>u v. pre @ js ''Name: co_example'' @ mid = u @ js ''DisplayName:'' @ v"
    and "\<nexists>u v. pre @ js ''Name: co_example'' @ mid @ js ''DisplayName: Example Form'' @ rest =
                u @ js ''FileName:'' @ v"
  shows "parse_descriptor d (pre @ js ''Name: co_example'' @ mid @ js ''DisplayName: Example Form'' @ rest) =
        \<lparr> dir = d, name = Some (js ''co_example''), displayName = Some (js ''Example Form''),
          fileName = None \<rparr>"
proof -
  let ?c = "pre @ js ''Name: co_example'' @ mid @ js ''DisplayName: Example Form'' @ rest"
  have "pre = [] \<or> last pre \<notin> set (js ''Name:'')"
    using assms(1) line_terminator_not_in_key(1) by blast
  from field_match_skip [OF assms(6) this]
  have n: "field_match (js ''Name:'') ?c = Some (js ''co_example'')"
    by (simp add: scenario_name_line [OF assms(2,3)])
  have "last (pre @ js ''Name: co_example'' @ mid) = last mid" using assms(2) by simp
  then have "pre @ js ''Name: co_example'' @ mid = [] \<or>
      last (pre @ js ''Name: co_example'' @ mid) \<notin> set (js ''DisplayName:'')"
    using assms(4) line_terminator_not_in_key(2) by simp
  from field_match_skip [OF assms(7) this, of "js ''DisplayName: Example Form'' @ rest"]
  have dn: "field_match (js ''DisplayName:'') ?c = Some (js ''Example Form'')"
    by (simp add: scenario_displayName_line [OF assms(5)])
  have fn: "field_match (js ''FileName:'') ?c = None"
    using assms(8) by (rule field_match_absent)
  show ?thesis
    unfolding parse_descriptor_def
    by (simp only: n dn fn option.map trim_co_example trim_Example_Form)
qed

text \<open>
  C7, what the code does. \<open>getWebResourceInfo\<close> returns \<open>null\<close> when the descriptor file
  is absent; otherwise the three fields come from three independent searches of the
  text, none of them tied to the start of a line, and a field whose key (\<open>Name:\<close>,
  \<open>DisplayName:\<close>, \<open>FileName:\<close>) occurs nowhere in the text is \<open>null\<close>. The descriptor
  of the scenario gives name \<open>co_example\<close>, displayName \<open>Example Form\<close> and fileName
  \<open>null\<close> where the line \<open>Name: co_example\<close> comes first: \<open>Name:\<close> does not occur before
  it, \<open>DisplayName:\<close> does not occur before the line \<open>DisplayName: Example Form\<close> further
  down, and \<open>FileName:\<close> does not occur at all.
\<close>

theorem getWebResourceInfo_fields:
  "(\<not> existsSync root (ymlPath d') \<longrightarrow> getWebResourceInfo root d' = Inr None) \<and>
   (stat root (ymlPath d) = Inr (File m content) \<longrightarrow>
      getWebResourceInfo root d = Inr (Some (parse_descriptor d content))) \<and>
   ((\<nexists>u v. c1 = u @ js ''Name:'' @ v) \<longrightarrow> name (parse_descriptor d c1) = None) \<and>
   ((\<nexists>u v. c2 = u @ js ''DisplayName:'' @ v) \<longrightarrow>
      displayName (parse_descriptor d c2) = None) \<and>
   ((\<nexists>u v. c3 = u @ js ''FileName:'' @ v) \<longrightarrow>
      fileName (parse_descriptor d c3) = None) \<and>
   ((pre = [] \<or> is_line_terminator (last pre)) \<and>
    mid \<noteq> [] \<and> is_line_terminator (hd mid) \<and> is_line_terminator (last mid) \<and>
    (rest = [] \<or> is_line_terminator (hd rest)) \<and>
    (\<nexists>u v. pre = u @ js ''Name:'' @ v) \<and>
    (\<nexists>u v. pre @ js ''Name: co_example'' @ mid = u @ js ''DisplayName:'' @ v) \<and>
    (\<nexists>u v. pre @ js ''Name: co_example'' @ mid @ js ''DisplayName: Example Form'' @ rest =
              u @ js ''FileName:'' @ v) \<longrightarrow>
      parse_descriptor d
        (pre @ js ''Name: co_example'' @ mid @ js ''DisplayName: Example Form'' @ rest) =
        \<lparr> dir = d, name = Some (js ''co_example''), displayName = Some (js ''Example Form''),
          fileName = None \<rparr>)"
proof (intro conjI impI)
  assume a: "(pre = [] \<or> is_line_terminator (last pre)) \<and>
    mid \<noteq> [] \<and> is_line_terminator (hd mid) \<and> is_line_terminator (last mid) \<and>
    (rest = [] \<or> is_line_terminator (hd rest)) \<and>
    (\<nexists>u v. pre = u @ js ''Name:'' @ v) \<and>
    (\<nexists>u v. pre @ js ''Name: co_example'' @ mid = u @ js ''DisplayName:'' @ v) \<and>
    (\<nexists>u v. pre @ js ''Name: co_example'' @ mid @ js ''DisplayName: Example Form'' @ rest =
              u @ js ''FileName:'' @ v)"
  show "parse_descriptor d
        (pre @ js ''Name: co_example'' @ mid @ js ''DisplayName: Example Form'' @ rest) =
        \<lparr> dir = d, name = Some (js ''co_example''), displayName = Some (js ''Example Form''),
          fileName = None \<rparr>"
    by (rule scenario_fields) (use a in blast)+
qed (simp_all add: getWebResourceInfo_absent getWebResourceInfo_present parse_descriptor_def
    field_match_absent)


lemma example_descriptor_stat:
  "stat example_root (ymlPath (js ''folder-123'')) = Inr (File ReadWrite example_descriptor)"
  by (simp add: example_root_def example_folder_def ymlPath_def stat_def path_resolve_def
      path_join_def path_normalize_def WEBRESOURCES_DIR_def js_def slash_def)

lemma example_descriptor_missing: "\<not> existsSync example_root (ymlPath (js ''folder-999''))"
  by (simp add: existsSync_def example_root_def example_folder_def ymlPath_def stat_def
      path_resolve_def path_join_def path_normalize_def WEBRESOURCES_DIR_def js_def slash_def)

lemma no_key_in_description:
  "\<nexists>u v. js ''Description: none'' = u @ js ''Name:'' @ v"
  "\<nexists>u v. js ''Description: none'' = u @ js ''DisplayName:'' @ v"
  "\<nexists>u v. js ''Description: none'' = u @ js ''FileName:'' @ v"
  unfolding js_Cons js_Nil
  by (intro not_occurs_ConsI not_occurs_NilI; simp add: startsWith_def)+

lemma no_key_in_example:
  "\<nexists>u v. [] = u @ js ''Name:'' @ v"
  "\<nexists>u v. js ''Name: co_example\<newline>'' = u @ js ''DisplayName:'' @ v"
  "\<nexists>u v. js ''Name: co_example\<newline>DisplayName: Example Form\<newline>'' = u @ js ''FileName:'' @ v"
  unfolding js_Cons js_Nil
  by (intro not_occurs_ConsI not_occurs_NilI; simp add: startsWith_def)+

theorem getWebResourceInfo_fields_witness:
  "getWebResourceInfo example_root (js ''folder-999'') = Inr None \<and>
   getWebResourceInfo example_root (js ''folder-123'') =
     Inr (Some \<lparr> dir = js ''folder-123'', name = Some (js ''co_example''),
                  displayName = Some (js ''Example Form''), fileName = None \<rparr>) \<and>
   name (parse_descriptor (js ''folder-123'') (js ''Description: none'')) = None \<and>
   displayName (parse_descriptor (js ''folder-123'') (js ''Description: none'')) = None \<and>
   fileName (parse_descriptor (js ''folder-123'') (js ''Description: none'')) = None"
proof -
  have lt: "is_line_terminator (hd (js ''\<newline>''))" "is_line_terminator (last (js ''\<newline>''))"
    "js ''\<newline>'' \<noteq> []"
    by (simp_all add: js_def is_line_terminator_def)
  have split: "example_descriptor =
      [] @ js ''Name: co_example'' @ js ''\<newline>'' @ js ''DisplayName: Example Form'' @ js ''\<newline>''"
    by (simp add: example_descriptor_def js_def)
  have parts:
    "[] @ js ''Name: co_example'' @ js ''\<newline>'' = js ''Name: co_example\<newline>''"
    "[] @ js ''Name: co_example'' @ js ''\<newline>'' @ js ''DisplayName: Example Form'' @ js ''\<newline>'' =
       js ''Name: co_example\<newline>DisplayName: Example Form\<newline>''"
    by (simp_all add: js_def)
  show ?thesis
    using getWebResourceInfo_fields [of example_root "js ''folder-999''" "js ''folder-123''"
        ReadWrite example_descriptor "js ''Description: none''" "js ''Description: none''"
        "js ''Description: none''" "[]" "js ''\<newline>''" "js ''\<newline>''"]
      example_descriptor_stat example_descriptor_missing no_key_in_description
      no_key_in_example lt
    unfolding split parts by simp
qed

text \<open>
  C7, where the code departs from it: the search for \<open>Name:\<close> also finds the end of
  \<open>DisplayName:\<close>. In a descriptor that holds the same two lines with the display name
  first, and no FileName line, the name returned is the display name; and a descriptor
  with no Name line at all is given a name.
\<close>

theorem getWebResourceInfo_name_counterexample:
  "getWebResourceInfo swapped_root (js ''folder-123'') =
     Inr (Some \<lparr> dir = js ''folder-123'', name = Some (js ''Example Form''),
                  displayName = Some (js ''Example Form''), fileName = None \<rparr>) \<and>
   Some (js ''Example Form'') \<noteq> Some (js ''co_example'') \<and>
   name (parse_descriptor (js ''folder-123'') (js ''DisplayName: Example Form\<newline>'')) =
     Some (js ''Example Form'')"
  by code_simp


section \<open>The mapping store: loading\<close>


lemma loadMapping_cases:
  "loadMapping w =
     (if \<not> existsSync (tree w) CONFIG_FILE then Returned (JObject []) (say None NoMappingFile w)
      else case readFileSync (tree w) CONFIG_FILE of
             Inl e \<Rightarrow> Returned (JObject []) (say None (MappingReadError e) w)
           | Inr content \<Rightarrow>
               (case JSON_parse content of
                  None \<Rightarrow> Returned (JObject []) (say None (MappingReadError SyntaxError) w)
                | Some v \<Rightarrow> Returned v w))"
  by (simp add: loadMapping_def read_and_parse_def try_catch_def reading_def
      split: sum.splits option.splits)

lemma loadMapping_new_cases:
  "loadMapping_new w =
     (if \<not> existsSync (tree w) CONFIG_FILE then Returned (JObject []) w
      else case readFileSync (tree w) CONFIG_FILE of
             Inl e \<Rightarrow> Returned (JObject []) (say None (MappingReadError e) w)
           | Inr content \<Rightarrow>
               (case JSON_parse content of
                  None \<Rightarrow> Returned (JObject []) (say None (MappingReadError SyntaxError) w)
                | Some v \<Rightarrow> Returned v w))"
  by (simp add: loadMapping_new_def read_and_parse_def try_catch_def reading_def
      split: sum.splits option.splits)

lemma readFileSync_exists: "readFileSync root p = Inr content \<Longrightarrow> existsSync root p"
  by (auto simp: readFileSync_def existsSync_def split: sum.splits node.splits)

text \<open>
  C6. \<open>loadMapping\<close>, in the sync script and in the creation script, always returns
  and never throws. When the mapping file is absent it returns the empty table. When
  the file is read but its text is not JSON, it reports the error and returns the
  empty table.
\<close>

theorem loadMapping_never_throws:
  "(\<exists>v w'. loadMapping w = Returned v w') \<and>
   (\<exists>v w'. loadMapping_new w = Returned v w') \<and>
   (\<not> existsSync (tree w) CONFIG_FILE \<longrightarrow>
      loadMapping w = Returned (JObject []) (say None NoMappingFile w) \<and>
      loadMapping_new w = Returned (JObject []) w) \<and>
   (readFileSync (tree w) CONFIG_FILE = Inr content \<and> JSON_parse content = None \<longrightarrow>
      loadMapping w = Returned (JObject []) (say None (MappingReadError SyntaxError) w) \<and>
      loadMapping_new w = Returned (JObject []) (say None (MappingReadError SyntaxError) w))"
proof (intro conjI impI)
  show "\<exists>v w'. loadMapping w = Returned v w'"
    by (simp add: loadMapping_cases split: sum.splits option.splits)
  show "\<exists>v w'. loadMapping_new w = Returned v w'"
    by (simp add: loadMapping_new_cases split: sum.splits option.splits)
next
  assume "\<not> existsSync (tree w) CONFIG_FILE"
  then show "loadMapping w = Returned (JObject []) (say None NoMappingFile w)"
    and "loadMapping_new w = Returned (JObject []) w"
    by (simp_all add: loadMapping_cases loadMapping_new_cases)
next
  assume a: "readFileSync (tree w) CONFIG_FILE = Inr content \<and> JSON_parse content = None"
  then have "existsSync (tree w) CONFIG_FILE" using readFileSync_exists by blast
  with a show "loadMapping w = Returned (JObject []) (say None (MappingReadError SyntaxError) w)"
    and "loadMapping_new w = Returned (JObject []) (say None (MappingReadError SyntaxError) w)"
    by (simp_all add: loadMapping_cases loadMapping_new_cases)
qed


theorem loadMapping_never_throws_witness:
  "loadMapping \<lparr>tree = example_root, console = []\<rparr> =
     Returned (JObject []) \<lparr>tree = example_root, console = [(None, NoMappingFile)]\<rparr> \<and>
   loadMapping_new \<lparr>tree = example_root, console = []\<rparr> =
     Returned (JObject []) \<lparr>tree = example_root, console = []\<rparr> \<and>
   loadMapping \<lparr>tree = broken_root, console = []\<rparr> =
     Returned (JObject []) \<lparr>tree = broken_root, console = [(None, MappingReadError SyntaxError)]\<rparr> \<and>
   loadMapping_new \<lparr>tree = broken_root, console = []\<rparr> =
     Returned (JObject []) \<lparr>tree = broken_root, console = [(None, MappingReadError SyntaxError)]\<rparr>"
proof -
  have absent: "\<not> existsSync example_root CONFIG_FILE"
    by code_simp
  have present: "readFileSync broken_root CONFIG_FILE = Inr (js ''{ \"a.ts\": '')"
    by code_simp
  have unparsable: "JSON_parse (js ''{ \"a.ts\": '') = None"
    by code_simp
  show ?thesis
    using loadMapping_never_throws [of "\<lparr>tree = example_root, console = []\<rparr>" "[]"]
      loadMapping_never_throws [of "\<lparr>tree = broken_root, console = []\<rparr>" "js ''{ \"a.ts\": ''"]
      absent present unparsable
    by (simp add: say_def)
qed

lemma loadMapping_never_throws_aux: "\<exists>v w'. loadMapping w = Returned v w'"
  by (simp add: loadMapping_cases split: sum.splits option.splits)

lemma loadMapping_tree: "loadMapping w = Returned v w' \<Longrightarrow> tree w' = tree w"
  by (auto simp: loadMapping_cases say_def split: if_splits sum.splits option.splits)


section \<open>Parsing what \<open>JSON.stringify\<close> prints\<close>

lemma hex_value_hex_digit: "d < 16 \<Longrightarrow> hex_value (hex_digit d) = Some d"
proof -
  assume "d < 16"
  then have "d = 0 \<or> d = 1 \<or> d = 2 \<or> d = 3 \<or> d = 4 \<or> d = 5 \<or> d = 6 \<or> d = 7 \<or>
    d = 8 \<or> d = 9 \<or> d = 10 \<or> d = 11 \<or> d = 12 \<or> d = 13 \<or> d = 14 \<or> d = 15" by arith
  then show ?thesis by (elim disjE) (simp_all add: hex_value_def hex_digit_def)
qed

lemma unat_div_4096: "unat (c :: 16 word) div 4096 < 16"
proof -
  have "unat c < 2 ^ LENGTH(16)" by (rule unsigned_less)
  then show ?thesis by simp
qed


lemma nat_digits: "(n::nat) div 4096 * 4096 + n div 256 mod 16 * 256 + n div 16 mod 16 * 16 + n mod 16 = n"
proof -
  define q1 where "q1 = n div 16"
  define q2 where "q2 = n div 256"
  define q3 where "q3 = n div 4096"
  define d0 where "d0 = n mod 16"
  define d1 where "d1 = q1 mod 16"
  define d2 where "d2 = q2 mod 16"
  have e1: "q2 = q1 div 16" by (simp add: q1_def q2_def div_mult2_eq [symmetric])
  have e2: "q3 = q2 div 16" by (simp add: q2_def q3_def div_mult2_eq [symmetric])
  have a: "n = q1 * 16 + d0" by (simp add: q1_def d0_def)
  have b: "q1 = q2 * 16 + d1" by (simp add: e1 d1_def)
  have c: "q2 = q3 * 16 + d2" by (simp add: e2 d2_def)
  have "q3 * 4096 + d2 * 256 + d1 * 16 + d0 = n"
    by (subst a, subst b, subst c) simp
  then show ?thesis by (simp add: q1_def q2_def q3_def d0_def d1_def d2_def)
qed


lemma code_unit_digits:
  "code_unit (unat c div 4096) (unat c div 256 mod 16) (unat c div 16 mod 16) (unat c mod 16) = c"
  unfolding code_unit_def nat_digits by simp

lemma parse_string_unicode_escape:
  "parse_string (unicode_escape c @ r) = cons_fst c (parse_string r)"
  by (simp add: unicode_escape_def hex_value_hex_digit unat_div_4096 code_unit_digits)

lemma parse_string_quote_unit:
  "parse_string (quote_unit c @ r) = cons_fst c (parse_string r)"
  by (simp add: quote_unit_def parse_string_unicode_escape simple_escape_def del: parse_string.simps)
     (simp add: simple_escape_def)

lemma surrogate_raw:
  "is_high_surrogate c \<or> is_low_surrogate c \<Longrightarrow> \<not> c < 0x20 \<and> c \<noteq> 0x22 \<and> c \<noteq> 0x5C"
  by (auto simp: is_high_surrogate_def is_low_surrogate_def word_le_nat_alt word_less_nat_alt)

lemma parse_string_surrogate:
  "is_high_surrogate c \<or> is_low_surrogate c \<Longrightarrow> parse_string (c # r) = cons_fst c (parse_string r)"
  using surrogate_raw [of c] by simp

lemma parse_string_quote_body: "parse_string (quote_body s @ 0x22 # r) = Some (s, r)"
proof (induction s rule: quote_body.induct)
  case 1
  show ?case by simp
next
  case (2 c)
  have "parse_string (0x22 # r) = Some ([], r)" by simp
  then show ?case
    by (simp add: parse_string_unicode_escape parse_string_quote_unit cons_fst_def
        del: parse_string.simps)
next
  case (3 c d cs)
  then show ?case
    by (simp add: parse_string_unicode_escape parse_string_quote_unit parse_string_surrogate
        cons_fst_def del: parse_string.simps)
qed

lemma skip_ws_Cons: "skip_ws (c # cs) = (if is_json_ws c then skip_ws cs else c # cs)"
  by (simp add: skip_ws_def)

lemma skip_ws_Nil: "skip_ws [] = []"
  by (simp add: skip_ws_def)

lemma object_of_members_distinct_aux:
  "distinct (map fst (acc @ ms)) \<Longrightarrow>
   foldl (\<lambda>obj (k, v). AList.update k v obj) acc ms = acc @ ms"
proof (induction ms arbitrary: acc)
  case Nil
  then show ?case by simp
next
  case (Cons m ms)
  obtain k v where m: "m = (k, v)" by (cases m)
  from Cons.prems have "k \<notin> fst ` set acc" by (auto simp: m)
  then have up: "AList.update k v acc = acc @ [(k, v)]"
    by (induction acc) auto
  from Cons.prems have "distinct (map fst ((acc @ [(k, v)]) @ ms))" by (simp add: m)
  from Cons.IH [OF this] show ?case by (simp add: m up)
qed

lemma object_of_members_distinct:
  "distinct (map fst ms) \<Longrightarrow> object_of_members ms = ms"
  using object_of_members_distinct_aux [of "[]" ms] by (simp add: object_of_members_def)

lemma table_of_json_of_table: "table_of_json (json_of_table t) = Some t"
  by (induction t) (auto simp: json_of_table_def)

lemma parse_value_quote:
  "parse_value (Suc n) (0x22 # quote_body v @ 0x22 # r) = Some (JString v, r)"
  by (simp add: parse_string_quote_body del: parse_string.simps)

lemma parse_members_last:
  "parse_members (Suc (Suc n))
     (0x22 # quote_body k @ 0x22 # 0x3A # 0x20 # 0x22 # quote_body v @ 0x22 # 0x0A # 0x7D # r) =
   Some ([(k, JString v)], r)"
  by (subst parse_members.simps)
     (simp add: parse_string_quote_body parse_value_quote skip_ws_Cons is_json_ws_def
        del: parse_string.simps parse_value.simps parse_members.simps)

lemma parse_members_more:
  "parse_members (Suc (Suc n))
     (0x22 # quote_body k @ 0x22 # 0x3A # 0x20 # 0x22 # quote_body v @ 0x22 # 0x2C # 0x0A # tl0) =
   cons_fst (k, JString v) (parse_members (Suc n) (skip_ws tl0))"
  by (subst parse_members.simps)
     (simp add: parse_string_quote_body parse_value_quote skip_ws_Cons is_json_ws_def
        del: parse_string.simps parse_value.simps parse_members.simps)

lemma stringify_member_text:
  "stringify_member (k, v) @ tl0 =
   0x20 # 0x20 # 0x22 # quote_body k @ 0x22 # 0x3A # 0x20 # 0x22 # quote_body v @ 0x22 # tl0"
  by (simp add: stringify_member_def quote_def js_def)

lemma parse_members_text:
  "t \<noteq> [] \<Longrightarrow> length t \<le> n \<Longrightarrow>
   parse_members (Suc n) (skip_ws (join_with (js '',\<newline>'') (map stringify_member t) @ js ''\<newline>}'' @ r)) =
     Some (map (\<lambda>(k, v). (k, JString v)) t, r)"
proof (induction t arbitrary: n)
  case Nil
  then show ?case by simp
next
  case (Cons kv t)
  obtain k v where kv: "kv = (k, v)" by (cases kv)
  from Cons.prems obtain n' where n: "n = Suc n'" and len: "length t \<le> n'"
    by (cases n) auto
  show ?case
  proof (cases t)
    case Nil
    have "join_with (js '',\<newline>'') (map stringify_member (kv # t)) @ js ''\<newline>}'' @ r =
        stringify_member (k, v) @ 0x0A # 0x7D # r"
      by (simp add: Nil kv js_def)
    then show ?thesis
      unfolding n
      by (simp add: stringify_member_text skip_ws_Cons is_json_ws_def parse_members_last Nil kv
          del: parse_string.simps parse_value.simps parse_members.simps)
  next
    case (Cons kv' t')
    then have "t \<noteq> []" by simp
    from Cons.IH [OF this len]
    have IH: "parse_members (Suc n') (skip_ws (join_with (js '',\<newline>'') (map stringify_member t) @ js ''\<newline>}'' @ r)) =
        Some (map (\<lambda>(k, v). (k, JString v)) t, r)" .
    have "join_with (js '',\<newline>'') (map stringify_member (kv # t)) @ js ''\<newline>}'' @ r =
        stringify_member (k, v) @ 0x2C # 0x0A #
          (join_with (js '',\<newline>'') (map stringify_member t) @ js ''\<newline>}'' @ r)"
      by (simp add: Cons kv js_def)
    then show ?thesis
      unfolding n
      by (simp add: stringify_member_text skip_ws_Cons is_json_ws_def parse_members_more IH
          cons_fst_def kv
          del: parse_string.simps parse_value.simps parse_members.simps)
  qed
qed

lemma length_join_members:
  "length t \<le> length (join_with sep (map stringify_member t))"
proof (induction t rule: induct_list012)
  case 1
  show ?case by simp
next
  case (2 kv)
  show ?case by (simp add: stringify_member_def js_def)
next
  case (3 kv kv' t)
  then show ?case by (simp add: stringify_member_def js_def)
qed

lemma JSON_parse_stringify_table:
  assumes "distinct (map fst t)"
  shows "JSON_parse (stringify_table t) = Some (json_of_table t)"
proof (cases "t = []")
  case True
  then show ?thesis
    by (simp add: JSON_parse_def stringify_table_def js_def skip_ws_Cons skip_ws_Nil is_json_ws_def
        json_of_table_def)
next
  case False
  define body where "body = join_with (js '',\<newline>'') (map stringify_member t)"
  define n where "n = length (js ''{\<newline>'' @ body @ js ''\<newline>}'') - 1"
  define inner where "inner = skip_ws (body @ js ''\<newline>}'')"
  have printed: "stringify_table t = 0x7B # 0x0A # body @ js ''\<newline>}''"
    using False by (simp add: stringify_table_def body_def js_def)
  have len: "length (stringify_table t) = Suc n"
    by (simp add: printed n_def js_def)
  have "length t \<le> n"
    using length_join_members [of t "js '',\<newline>''"] by (simp add: n_def body_def js_def)
  from parse_members_text [OF False this, of "[]"]
  have pm: "parse_members (Suc n) inner = Some (map (\<lambda>(k, v). (k, JString v)) t, [])"
    by (simp add: body_def inner_def)
  have "inner \<noteq> []"
    using pm by auto
  then obtain d rest where dr: "inner = d # rest"
    by (cases inner) auto
  have d: "d \<noteq> 0x7D"
    using pm unfolding dr by (auto split: if_splits)
  have dist: "distinct (map fst (map (\<lambda>(k, v). (k, JString v)) t))"
    using assms by (simp add: case_prod_unfold comp_def)
  have start: "skip_ws (stringify_table t) = 0x7B # 0x0A # body @ js ''\<newline>}''"
    by (simp add: printed skip_ws_Cons is_json_ws_def)
  have inner': "skip_ws (0x0A # body @ js ''\<newline>}'') = d # rest"
    using dr by (simp add: inner_def skip_ws_Cons is_json_ws_def)
  have "parse_value (Suc (Suc n)) (0x7B # 0x0A # body @ js ''\<newline>}'') =
      Some (JObject (map (\<lambda>(k, v). (k, JString v)) t), [])"
    using pm d unfolding dr
    by (subst parse_value.simps)
       (simp add: inner' object_of_members_distinct [OF dist]
          del: parse_members.simps parse_value.simps)
  then show ?thesis
    unfolding JSON_parse_def len start
    by (simp add: skip_ws_Nil json_of_table_def del: parse_value.simps)
qed

section \<open>The bound on the recursion of \<open>JSON_parse\<close>\<close>

text \<open>
  A parse that succeeds with some bound succeeds with the bound that \<open>JSON_parse\<close>
  gives it, with the same result: \<open>JSON_parse\<close> returns \<open>None\<close> only for a text that is not
  JSON.
\<close>

lemma skip_ws_length: "length (skip_ws s) \<le> length s"
  by (simp add: skip_ws_def length_dropWhile_le)

lemma skip_ws_ConsD: "skip_ws s = d # r \<Longrightarrow> length r < length s"
  using skip_ws_length [of s] by simp

lemma cons_fst_Some: "cons_fst x p = Some (ys, r) \<longleftrightarrow> (\<exists>xs. p = Some (xs, r) \<and> ys = x # xs)"
  by (cases p) (auto simp: cons_fst_def)

lemma parse_string_step:
  "parse_string s = Some (x, r) \<Longrightarrow>
   length r < length s \<or> (\<exists>sub xs. parse_string sub = Some (xs, r) \<and> length sub < length s)"
  by (cases s)
     (auto simp: cons_fst_Some split: if_splits list.splits option.splits)

lemma parse_string_length: "parse_string s = Some (x, r) \<Longrightarrow> length r < length s"
proof (induction "length s" arbitrary: s x rule: less_induct)
  case less
  from parse_string_step [OF less.prems] show ?case
  proof
    assume "length r < length s"
    then show ?thesis .
  next
    assume "\<exists>sub xs. parse_string sub = Some (xs, r) \<and> length sub < length s"
    then obtain sub xs where p: "parse_string sub = Some (xs, r)" and l: "length sub < length s"
      by blast
    from less.hyps [OF l p] l show ?thesis by simp
  qed
qed

lemma parse_digits_length: "parse_digits s = Some (x, r) \<Longrightarrow> length r \<le> length s"
  by (auto simp: parse_digits_def length_dropWhile_le split: if_splits)

lemma parse_number_length: "parse_number s = Some (x, r) \<Longrightarrow> length r < length s"
proof -
  assume a: "parse_number s = Some (x, r)"
  define sign where "sign = (case s of [] \<Rightarrow> ([], s) | c # cs \<Rightarrow> if c = 0x2D then ([c], cs) else ([], s))"
  obtain sg s0 where sg: "sign = (sg, s0)" by (cases sign)
  have l0: "length s0 \<le> length s"
    using sg by (auto simp: sign_def split: list.splits if_splits)
  from a obtain i s1 f s2 e where ip: "parse_int_part s0 = Some (i, s1)"
    and fp: "parse_frac_part s1 = Some (f, s2)" and ep: "parse_exp_part s2 = Some (e, r)"
    unfolding parse_number_def sign_def [symmetric] sg
    by (auto simp: Let_def split: option.splits)
  from ip have l1: "length s1 < length s0"
    using length_dropWhile_le [of is_digit "tl s0"]
    by (auto simp: parse_int_part_def split: list.splits if_splits)
  from fp have l2: "length s2 \<le> length s1"
    by (auto simp: parse_frac_part_def cons_fst_Some dest!: parse_digits_length
        split: list.splits if_splits)
  from ep have l3: "length r \<le> length s2"
    by (auto simp: parse_exp_part_def cons_fst_Some dest!: parse_digits_length
        split: list.splits if_splits)
  from l0 l1 l2 l3 show ?thesis by simp
qed

lemma parse_value_Suc:
  "parse_value (Suc n) s = Some (v, r) \<Longrightarrow>
   (\<exists>cs d r0 ms. s = 0x7B # cs \<and> skip_ws cs = d # r0 \<and>
      (d = 0x7D \<and> v = JObject [] \<and> r = r0 \<or>
       d \<noteq> 0x7D \<and> parse_members n (d # r0) = Some (ms, r) \<and> v = JObject (object_of_members ms))) \<or>
   (\<exists>cs d r0 vs. s = 0x5B # cs \<and> skip_ws cs = d # r0 \<and>
      (d = 0x5D \<and> v = JArray [] \<and> r = r0 \<or>
       d \<noteq> 0x5D \<and> parse_elements n (d # r0) = Some (vs, r) \<and> v = JArray vs)) \<or>
   (s \<noteq> [] \<and> hd s \<noteq> 0x7B \<and> hd s \<noteq> 0x5B \<and> length r < length s \<and>
      (\<forall>m. parse_value (Suc m) s = Some (v, r)))"
  by (cases s)
     (auto simp: startsWith_def js_def split: if_splits list.splits option.splits
        dest: parse_string_length parse_number_length)


lemma parse_elements_Suc:
  "parse_elements (Suc n) s = Some (vs, r) \<Longrightarrow>
   \<exists>v r1 d r'. parse_value n s = Some (v, r1) \<and> skip_ws r1 = d # r' \<and>
     (d = 0x2C \<and> (\<exists>vs'. parse_elements n (skip_ws r') = Some (vs', r) \<and> vs = v # vs') \<or>
      d \<noteq> 0x2C \<and> d = 0x5D \<and> vs = [v] \<and> r = r')"
  by (auto simp: cons_fst_Some split: if_splits list.splits option.splits)

lemma parse_members_Suc:
  "parse_members (Suc n) s = Some (ms, r) \<Longrightarrow>
   \<exists>cs k r0 r1 v r2 d r3. s = 0x22 # cs \<and> parse_string cs = Some (k, r0) \<and>
     skip_ws r0 = 0x3A # r1 \<and> parse_value n (skip_ws r1) = Some (v, r2) \<and> skip_ws r2 = d # r3 \<and>
     (d = 0x2C \<and> (\<exists>ms'. parse_members n (skip_ws r3) = Some (ms', r) \<and> ms = (k, v) # ms') \<or>
      d \<noteq> 0x2C \<and> d = 0x7D \<and> ms = [(k, v)] \<and> r = r3)"
  by (cases s) (auto simp: cons_fst_Some split: if_splits list.splits option.splits)

lemma parse_elements_intro:
  "parse_value n s = Some (v, r1) \<Longrightarrow> skip_ws r1 = d # r' \<Longrightarrow>
   (d = 0x2C \<and> parse_elements n (skip_ws r') = Some (vs', r) \<and> vs = v # vs' \<or>
    d \<noteq> 0x2C \<and> d = 0x5D \<and> vs = [v] \<and> r = r') \<Longrightarrow>
   parse_elements (Suc n) s = Some (vs, r)"
  by (auto simp: cons_fst_Some)

lemma parse_members_intro:
  "parse_string cs = Some (k, r0) \<Longrightarrow> skip_ws r0 = 0x3A # r1 \<Longrightarrow>
   parse_value n (skip_ws r1) = Some (v, r2) \<Longrightarrow> skip_ws r2 = d # r3 \<Longrightarrow>
   (d = 0x2C \<and> parse_members n (skip_ws r3) = Some (ms', r) \<and> ms = (k, v) # ms' \<or>
    d \<noteq> 0x2C \<and> d = 0x7D \<and> ms = [(k, v)] \<and> r = r3) \<Longrightarrow>
   parse_members (Suc n) (0x22 # cs) = Some (ms, r)"
  by (auto simp: cons_fst_Some)

lemma parse_length:
  "(\<forall>s v r. parse_value n s = Some (v, r) \<longrightarrow> length r < length s) \<and>
   (\<forall>s vs r. parse_elements n s = Some (vs, r) \<longrightarrow> length r < length s) \<and>
   (\<forall>s ms r. parse_members n s = Some (ms, r) \<longrightarrow> length r < length s)"
proof (induction n)
  case 0
  show ?case by simp
next
  case (Suc n)
  note IHv = Suc [THEN conjunct1, rule_format]
    and IHe = Suc [THEN conjunct2, THEN conjunct1, rule_format]
    and IHm = Suc [THEN conjunct2, THEN conjunct2, rule_format]
  have v: "length r < length s" if "parse_value (Suc n) s = Some (v, r)" for s v r
    using parse_value_Suc [OF that]
    by (auto dest!: IHe IHm skip_ws_ConsD)
  have e: "length r < length s" if "parse_elements (Suc n) s = Some (vs, r)" for s vs r
  proof -
    from parse_elements_Suc [OF that] obtain v r1 d r'
      where pv: "parse_value n s = Some (v, r1)" and sk: "skip_ws r1 = d # r'"
        and rest: "(\<exists>vs'. parse_elements n (skip_ws r') = Some (vs', r)) \<or> r = r'"
      by blast
    from IHv [OF pv] skip_ws_ConsD [OF sk] have a: "length r' < length s" by simp
    from rest show ?thesis
    proof
      assume "\<exists>vs'. parse_elements n (skip_ws r') = Some (vs', r)"
      then obtain vs' where "parse_elements n (skip_ws r') = Some (vs', r)" by blast
      from IHe [OF this] skip_ws_length [of r'] a show ?thesis by simp
    next
      assume "r = r'"
      with a show ?thesis by simp
    qed
  qed
  have m: "length r < length s" if "parse_members (Suc n) s = Some (ms, r)" for s ms r
  proof -
    from parse_members_Suc [OF that] obtain cs k r0 r1 v r2 d r3
      where s: "s = 0x22 # cs" and ps: "parse_string cs = Some (k, r0)"
        and s0: "skip_ws r0 = 0x3A # r1" and pv: "parse_value n (skip_ws r1) = Some (v, r2)"
        and s2: "skip_ws r2 = d # r3"
        and rest: "(\<exists>ms'. parse_members n (skip_ws r3) = Some (ms', r)) \<or> r = r3"
      by blast
    from parse_string_length [OF ps] skip_ws_ConsD [OF s0] skip_ws_length [of r1]
      IHv [OF pv] skip_ws_ConsD [OF s2]
    have a: "length r3 < length s" by (simp add: s)
    from rest show ?thesis
    proof
      assume "\<exists>ms'. parse_members n (skip_ws r3) = Some (ms', r)"
      then obtain ms' where "parse_members n (skip_ws r3) = Some (ms', r)" by blast
      from IHm [OF this] skip_ws_length [of r3] a show ?thesis by simp
    next
      assume "r = r3"
      with a show ?thesis by simp
    qed
  qed
  from v e m show ?case by blast
qed

lemma parse_value_object_intro:
  "skip_ws cs = d # r0 \<Longrightarrow> d \<noteq> 0x7D \<Longrightarrow> parse_members n (d # r0) = Some (ms, r) \<Longrightarrow>
   parse_value (Suc n) (0x7B # cs) = Some (JObject (object_of_members ms), r)"
  by simp

lemma parse_value_array_intro:
  "skip_ws cs = d # r0 \<Longrightarrow> d \<noteq> 0x5D \<Longrightarrow> parse_elements n (d # r0) = Some (vs, r) \<Longrightarrow>
   parse_value (Suc n) (0x5B # cs) = Some (JArray vs, r)"
  by simp

lemma parse_value_empty_intro:
  "skip_ws cs = 0x7D # r0 \<Longrightarrow> parse_value (Suc n) (0x7B # cs) = Some (JObject [], r0)"
  "skip_ws cs = 0x5D # r0 \<Longrightarrow> parse_value (Suc n) (0x5B # cs) = Some (JArray [], r0)"
  by simp_all

lemma parse_mono:
  "(\<forall>s x m. parse_value n s = Some x \<longrightarrow> n \<le> m \<longrightarrow> parse_value m s = Some x) \<and>
   (\<forall>s x m. parse_elements n s = Some x \<longrightarrow> n \<le> m \<longrightarrow> parse_elements m s = Some x) \<and>
   (\<forall>s x m. parse_members n s = Some x \<longrightarrow> n \<le> m \<longrightarrow> parse_members m s = Some x)"
proof (induction n)
  case 0
  show ?case by simp
next
  case (Suc n)
  note IHv = Suc [THEN conjunct1, rule_format]
    and IHe = Suc [THEN conjunct2, THEN conjunct1, rule_format]
    and IHm = Suc [THEN conjunct2, THEN conjunct2, rule_format]
  have v: "parse_value m s = Some x" if p: "parse_value (Suc n) s = Some x" and le: "Suc n \<le> m"
    for s x m
  proof -
    obtain v r where x: "x = (v, r)" by (cases x)
    from le obtain m' where m: "m = Suc m'" and le': "n \<le> m'" by (cases m) auto
    from parse_value_Suc [OF p [unfolded x]] show ?thesis
    proof (elim disjE exE conjE)
      fix cs d r0 ms
      assume "s = 0x7B # cs" "skip_ws cs = d # r0" "d = 0x7D" "v = JObject []" "r = r0"
      then show ?thesis unfolding m x by (simp add: parse_value_empty_intro)
    next
      fix cs d r0 ms
      assume s: "s = 0x7B # cs" and sk: "skip_ws cs = d # r0" and d: "d \<noteq> 0x7D"
        and pm: "parse_members n (d # r0) = Some (ms, r)" and v: "v = JObject (object_of_members ms)"
      from IHm [OF pm le'] show ?thesis
        unfolding m x s v by (rule parse_value_object_intro [OF sk d])
    next
      fix cs d r0 vs
      assume "s = 0x5B # cs" "skip_ws cs = d # r0" "d = 0x5D" "v = JArray []" "r = r0"
      then show ?thesis unfolding m x by (simp add: parse_value_empty_intro)
    next
      fix cs d r0 vs
      assume s: "s = 0x5B # cs" and sk: "skip_ws cs = d # r0" and d: "d \<noteq> 0x5D"
        and pe: "parse_elements n (d # r0) = Some (vs, r)" and v: "v = JArray vs"
      from IHe [OF pe le'] show ?thesis
        unfolding m x s v by (rule parse_value_array_intro [OF sk d])
    next
      assume "\<forall>m. parse_value (Suc m) s = Some (v, r)"
      then show ?thesis unfolding m x by simp
    qed
  qed
  have e: "parse_elements m s = Some x" if p: "parse_elements (Suc n) s = Some x" and le: "Suc n \<le> m"
    for s x m
  proof -
    obtain vs r where x: "x = (vs, r)" by (cases x)
    from le obtain m' where m: "m = Suc m'" and le': "n \<le> m'" by (cases m) auto
    from parse_elements_Suc [OF p [unfolded x]] obtain v r1 d r'
      where pv: "parse_value n s = Some (v, r1)" and sk: "skip_ws r1 = d # r'"
        and rest: "d = 0x2C \<and> (\<exists>vs'. parse_elements n (skip_ws r') = Some (vs', r) \<and> vs = v # vs') \<or>
                   d \<noteq> 0x2C \<and> d = 0x5D \<and> vs = [v] \<and> r = r'"
      by blast
    from rest IHe le'
    have "\<exists>vs'. d = 0x2C \<and> parse_elements m' (skip_ws r') = Some (vs', r) \<and> vs = v # vs' \<or>
            d \<noteq> 0x2C \<and> d = 0x5D \<and> vs = [v] \<and> r = r'"
      by blast
    then obtain vs' where "d = 0x2C \<and> parse_elements m' (skip_ws r') = Some (vs', r) \<and> vs = v # vs' \<or>
            d \<noteq> 0x2C \<and> d = 0x5D \<and> vs = [v] \<and> r = r'" by blast
    from parse_elements_intro [OF IHv [OF pv le'] sk this] show ?thesis unfolding m x .
  qed
  have mm: "parse_members m s = Some x" if p: "parse_members (Suc n) s = Some x" and le: "Suc n \<le> m"
    for s x m
  proof -
    obtain ms r where x: "x = (ms, r)" by (cases x)
    from le obtain m' where m: "m = Suc m'" and le': "n \<le> m'" by (cases m) auto
    from parse_members_Suc [OF p [unfolded x]] obtain cs k r0 r1 v r2 d r3
      where s: "s = 0x22 # cs" and ps: "parse_string cs = Some (k, r0)"
        and s0: "skip_ws r0 = 0x3A # r1" and pv: "parse_value n (skip_ws r1) = Some (v, r2)"
        and s2: "skip_ws r2 = d # r3"
        and rest: "d = 0x2C \<and> (\<exists>ms'. parse_members n (skip_ws r3) = Some (ms', r) \<and> ms = (k, v) # ms') \<or>
                   d \<noteq> 0x2C \<and> d = 0x7D \<and> ms = [(k, v)] \<and> r = r3"
      by blast
    from rest IHm le'
    have "\<exists>ms'. d = 0x2C \<and> parse_members m' (skip_ws r3) = Some (ms', r) \<and> ms = (k, v) # ms' \<or>
            d \<noteq> 0x2C \<and> d = 0x7D \<and> ms = [(k, v)] \<and> r = r3"
      by blast
    then obtain ms' where "d = 0x2C \<and> parse_members m' (skip_ws r3) = Some (ms', r) \<and> ms = (k, v) # ms' \<or>
            d \<noteq> 0x2C \<and> d = 0x7D \<and> ms = [(k, v)] \<and> r = r3" by blast
    from parse_members_intro [OF ps s0 IHv [OF pv le'] s2 this] show ?thesis unfolding m x s .
  qed
  from v e mm show ?case by blast
qed

lemmas parse_value_mono = parse_mono [THEN conjunct1, rule_format]
  and parse_elements_mono = parse_mono [THEN conjunct2, THEN conjunct1, rule_format]
  and parse_members_mono = parse_mono [THEN conjunct2, THEN conjunct2, rule_format]

lemmas parse_value_length = parse_length [THEN conjunct1, rule_format]
  and parse_elements_length = parse_length [THEN conjunct2, THEN conjunct1, rule_format]
  and parse_members_length = parse_length [THEN conjunct2, THEN conjunct2, rule_format]

lemma parse_fuel:
  "(\<forall>s v r. parse_value n s = Some (v, r) \<longrightarrow> parse_value (length s - length r) s = Some (v, r)) \<and>
   (\<forall>s vs r. parse_elements n s = Some (vs, r) \<longrightarrow>
      parse_elements (length s - length r) s = Some (vs, r)) \<and>
   (\<forall>s ms r. parse_members n s = Some (ms, r) \<longrightarrow>
      parse_members (length s - length r) s = Some (ms, r))"
proof (induction n)
  case 0
  show ?case by simp
next
  case (Suc n)
  note IHv = Suc [THEN conjunct1, rule_format]
    and IHe = Suc [THEN conjunct2, THEN conjunct1, rule_format]
    and IHm = Suc [THEN conjunct2, THEN conjunct2, rule_format]
  have v: "parse_value (length s - length r) s = Some (v, r)"
    if p: "parse_value (Suc n) s = Some (v, r)" for s v r
  proof -
    from parse_value_length [OF p] obtain K where K: "length s - length r = Suc K"
      by (cases "length s - length r") auto
    from parse_value_Suc [OF p] show ?thesis
    proof (elim disjE exE conjE)
      fix cs d r0 ms
      assume "s = 0x7B # cs" "skip_ws cs = d # r0" "d = 0x7D" "v = JObject []" "r = r0"
      then show ?thesis unfolding K by (simp add: parse_value_empty_intro)
    next
      fix cs d r0 ms
      assume s: "s = 0x7B # cs" and sk: "skip_ws cs = d # r0" and d: "d \<noteq> 0x7D"
        and pm: "parse_members n (d # r0) = Some (ms, r)" and v: "v = JObject (object_of_members ms)"
      have "length (d # r0) - length r \<le> K"
        using K skip_ws_length [of cs] by (simp add: s sk)
      from parse_members_mono [OF IHm [OF pm] this] show ?thesis
        unfolding K unfolding s v by (rule parse_value_object_intro [OF sk d])
    next
      fix cs d r0 vs
      assume "s = 0x5B # cs" "skip_ws cs = d # r0" "d = 0x5D" "v = JArray []" "r = r0"
      then show ?thesis unfolding K by (simp add: parse_value_empty_intro)
    next
      fix cs d r0 vs
      assume s: "s = 0x5B # cs" and sk: "skip_ws cs = d # r0" and d: "d \<noteq> 0x5D"
        and pe: "parse_elements n (d # r0) = Some (vs, r)" and v: "v = JArray vs"
      have "length (d # r0) - length r \<le> K"
        using K skip_ws_length [of cs] by (simp add: s sk)
      from parse_elements_mono [OF IHe [OF pe] this] show ?thesis
        unfolding K unfolding s v by (rule parse_value_array_intro [OF sk d])
    next
      assume "\<forall>m. parse_value (Suc m) s = Some (v, r)"
      then show ?thesis unfolding K by simp
    qed
  qed
  have e: "parse_elements (length s - length r) s = Some (vs, r)"
    if p: "parse_elements (Suc n) s = Some (vs, r)" for s vs r
  proof -
    from parse_elements_length [OF p] obtain K where K: "length s - length r = Suc K"
      by (cases "length s - length r") auto
    from parse_elements_Suc [OF p] obtain v r1 d r'
      where pv: "parse_value n s = Some (v, r1)" and sk: "skip_ws r1 = d # r'"
        and rest: "d = 0x2C \<and> (\<exists>vs'. parse_elements n (skip_ws r') = Some (vs', r) \<and> vs = v # vs') \<or>
                   d \<noteq> 0x2C \<and> d = 0x5D \<and> vs = [v] \<and> r = r'"
      by blast
    note l1 = parse_value_length [OF pv] and l2 = skip_ws_ConsD [OF sk]
    have lr: "length r \<le> length r'"
      using rest parse_elements_length [of n "skip_ws r'" _ r] skip_ws_length [of r']
      by (auto simp: less_imp_le dest: less_le_trans)
    have "length s - length r1 \<le> K" using K l1 l2 lr by simp
    from parse_value_mono [OF IHv [OF pv] this] have pv': "parse_value K s = Some (v, r1)" .
    have "\<exists>vs'. d = 0x2C \<and> parse_elements K (skip_ws r') = Some (vs', r) \<and> vs = v # vs' \<or>
            d \<noteq> 0x2C \<and> d = 0x5D \<and> vs = [v] \<and> r = r'"
    proof (cases "d = 0x2C")
      case True
      with rest obtain vs' where pe: "parse_elements n (skip_ws r') = Some (vs', r)" and vs: "vs = v # vs'"
        by blast
      have "length (skip_ws r') - length r \<le> K"
        using K l1 l2 skip_ws_length [of r'] by simp
      from parse_elements_mono [OF IHe [OF pe] this] True vs show ?thesis by blast
    next
      case False
      with rest show ?thesis by blast
    qed
    then obtain vs' where "d = 0x2C \<and> parse_elements K (skip_ws r') = Some (vs', r) \<and> vs = v # vs' \<or>
            d \<noteq> 0x2C \<and> d = 0x5D \<and> vs = [v] \<and> r = r'" by blast
    from parse_elements_intro [OF pv' sk this] show ?thesis unfolding K .
  qed
  have m: "parse_members (length s - length r) s = Some (ms, r)"
    if p: "parse_members (Suc n) s = Some (ms, r)" for s ms r
  proof -
    from parse_members_length [OF p] obtain K where K: "length s - length r = Suc K"
      by (cases "length s - length r") auto
    from parse_members_Suc [OF p] obtain cs k r0 r1 v r2 d r3
      where s: "s = 0x22 # cs" and ps: "parse_string cs = Some (k, r0)"
        and s0: "skip_ws r0 = 0x3A # r1" and pv: "parse_value n (skip_ws r1) = Some (v, r2)"
        and s2: "skip_ws r2 = d # r3"
        and rest: "d = 0x2C \<and> (\<exists>ms'. parse_members n (skip_ws r3) = Some (ms', r) \<and> ms = (k, v) # ms') \<or>
                   d \<noteq> 0x2C \<and> d = 0x7D \<and> ms = [(k, v)] \<and> r = r3"
      by blast
    note l0 = parse_string_length [OF ps] and l1 = skip_ws_ConsD [OF s0]
      and l2 = skip_ws_length [of r1] and l3 = parse_value_length [OF pv]
      and l4 = skip_ws_ConsD [OF s2]
    have lr: "length r \<le> length r3"
      using rest parse_members_length [of n "skip_ws r3" _ r] skip_ws_length [of r3]
      by (auto simp: less_imp_le dest: less_le_trans)
    have "length (skip_ws r1) - length r2 \<le> K" using K l0 l1 l2 l3 l4 lr by (simp add: s)
    from parse_value_mono [OF IHv [OF pv] this]
    have pv': "parse_value K (skip_ws r1) = Some (v, r2)" .
    have "\<exists>ms'. d = 0x2C \<and> parse_members K (skip_ws r3) = Some (ms', r) \<and> ms = (k, v) # ms' \<or>
            d \<noteq> 0x2C \<and> d = 0x7D \<and> ms = [(k, v)] \<and> r = r3"
    proof (cases "d = 0x2C")
      case True
      with rest obtain ms' where pm: "parse_members n (skip_ws r3) = Some (ms', r)"
        and ms: "ms = (k, v) # ms'"
        by blast
      have "length (skip_ws r3) - length r \<le> K"
        using K l0 l1 l2 l3 l4 skip_ws_length [of r3] by (simp add: s)
      from parse_members_mono [OF IHm [OF pm] this] True ms show ?thesis by blast
    next
      case False
      with rest show ?thesis by blast
    qed
    then obtain ms' where "d = 0x2C \<and> parse_members K (skip_ws r3) = Some (ms', r) \<and> ms = (k, v) # ms' \<or>
            d \<noteq> 0x2C \<and> d = 0x7D \<and> ms = [(k, v)] \<and> r = r3" by blast
    from parse_members_intro [OF ps s0 pv' s2 this] show ?thesis unfolding K unfolding s .
  qed
  from v e m show ?case by blast
qed

lemma JSON_parse_fuel:
  assumes "parse_value n (skip_ws text) = Some (v, r)"
  shows "parse_value (Suc (length text)) (skip_ws text) = Some (v, r)"
proof -
  from parse_fuel [THEN conjunct1, rule_format, OF assms]
  have "parse_value (length (skip_ws text) - length r) (skip_ws text) = Some (v, r)" .
  moreover have "length (skip_ws text) - length r \<le> Suc (length text)"
    using skip_ws_length [of "text"] by simp
  ultimately show ?thesis by (rule parse_value_mono)
qed

lemma JSON_parse_any_fuel:
  "JSON_parse text = Some v \<longleftrightarrow> (\<exists>n r. parse_value n (skip_ws text) = Some (v, r) \<and> skip_ws r = [])"
proof
  assume "JSON_parse text = Some v"
  then show "\<exists>n r. parse_value n (skip_ws text) = Some (v, r) \<and> skip_ws r = []"
    unfolding JSON_parse_def
    by (fastforce simp del: parse_value.simps split: option.splits if_splits)
next
  assume "\<exists>n r. parse_value n (skip_ws text) = Some (v, r) \<and> skip_ws r = []"
  then obtain n r where "parse_value n (skip_ws text) = Some (v, r)" and "skip_ws r = []" by blast
  with JSON_parse_fuel show "JSON_parse text = Some v"
    unfolding JSON_parse_def by (simp del: parse_value.simps)
qed

section \<open>Facts about paths\<close>

lemma split_on_nonempty: "split_on d s \<noteq> []"
  by (induction s) (auto split: list.splits)

lemma split_on_append: "split_on d (xs @ d # ys) = split_on d xs @ split_on d ys"
proof (induction xs)
  case Nil
  show ?case by simp
next
  case (Cons c cs)
  obtain s ss where "split_on d cs = s # ss"
    using split_on_nonempty [of d cs] by (cases "split_on d cs") auto
  with Cons show ?case by simp
qed

lemma split_on_free: "d \<notin> set s \<Longrightarrow> split_on d s = [s]"
  by (induction s) auto

lemma split_on_segments_free: "seg \<in> set (split_on d s) \<Longrightarrow> d \<notin> set seg"
proof (induction s arbitrary: seg)
  case Nil
  then show ?case by simp
next
  case (Cons c cs)
  obtain t ts where sp: "split_on d cs = t # ts"
    using split_on_nonempty [of d cs] by (cases "split_on d cs") auto
  show ?case
  proof (cases "c = d")
    case True
    with Cons show ?thesis by auto
  next
    case False
    with Cons.prems sp have "seg = c # t \<or> seg \<in> set ts" by simp
    then show ?thesis
    proof
      assume "seg = c # t"
      moreover have "d \<notin> set t" using Cons.IH [of t] sp by simp
      ultimately show ?thesis using False by simp
    next
      assume "seg \<in> set ts"
      then show ?thesis using Cons.IH [of seg] sp by simp
    qed
  qed
qed

lemma split_join:
  "ns \<noteq> [] \<Longrightarrow> \<forall>seg \<in> set ns. d \<notin> set seg \<Longrightarrow> split_on d (join_with [d] ns) = ns"
proof (induction ns rule: induct_list012)
  case 1
  then show ?case by simp
next
  case (2 s)
  then show ?case by (simp add: split_on_free)
next
  case (3 s t ss)
  then have "split_on d (join_with [d] (t # ss)) = t # ss" by simp
  moreover have "split_on d s = [s]" using 3 by (simp add: split_on_free)
  ultimately show ?case by (simp add: split_on_append)
qed

lemma join_with_snoc:
  "join_with sep (ns @ [f]) = (if ns = [] then f else join_with sep ns @ sep @ f)"
  by (induction ns rule: induct_list012) auto

lemma join_with_eq_Nil: "join_with sep ns = [] \<Longrightarrow> [] \<notin> set ns \<Longrightarrow> ns = []"
  by (induction ns rule: induct_list012) auto

lemma norm_segs_append:
  "norm_segs b acc (xs @ ys) = norm_segs b (norm_segs b acc xs) ys"
  by (induction xs arbitrary: acc) auto

lemma norm_segs_subset: "set (norm_segs b acc segs) \<subseteq> set acc \<union> set segs"
proof (induction segs arbitrary: acc)
  case Nil
  show ?case by simp
next
  case (Cons s ss)
  have bl: "set (butlast acc) \<subseteq> set acc" by (meson in_set_butlastD subsetI)
  show ?case
    using Cons [of acc] Cons [of "butlast acc"] Cons [of "acc @ [s]"] bl by auto
qed

lemma norm_segs_nonempty_segs: "[] \<notin> set acc \<Longrightarrow> [] \<notin> set (norm_segs b acc segs)"
proof (induction segs arbitrary: acc)
  case Nil
  then show ?case by simp
next
  case (Cons s ss)
  have bl: "[] \<notin> set (butlast acc)" using Cons.prems by (meson in_set_butlastD)
  show ?case
    using Cons.IH [of acc] Cons.IH [of "butlast acc"] Cons.IH [of "acc @ [s]"] bl Cons.prems by auto
qed

lemma norm_segs_clean: "list_all clean acc \<Longrightarrow> list_all clean (norm_segs False acc segs)"
proof (induction segs arbitrary: acc)
  case Nil
  then show ?case by simp
next
  case (Cons s ss)
  have bl: "list_all clean (butlast acc)"
    using Cons.prems by (auto simp: list_all_iff dest: in_set_butlastD)
  consider (skip) "s = [] \<or> s = js ''.''" | (up) "s = js ''..''" | (seg) "clean s"
    by (auto simp: clean_def)
  then show ?case
  proof cases
    case skip
    then have "norm_segs False acc (s # ss) = norm_segs False acc ss" by auto
    then show ?thesis using Cons.IH [OF Cons.prems] by simp
  next
    case up
    then have "norm_segs False acc (s # ss) = norm_segs False acc ss \<or>
        norm_segs False acc (s # ss) = norm_segs False (butlast acc) ss"
      by (auto simp: js_def)
    then show ?thesis using Cons.IH [OF Cons.prems] Cons.IH [OF bl] by auto
  next
    case seg
    then have "norm_segs False acc (s # ss) = norm_segs False (acc @ [s]) ss"
      by (auto simp: clean_def)
    moreover have "list_all clean (acc @ [s])" using seg Cons.prems by simp
    ultimately show ?thesis using Cons.IH [of "acc @ [s]"] by simp
  qed
qed

lemma norm_segs_of_clean: "list_all clean ns \<Longrightarrow> norm_segs False acc ns = acc @ ns"
  by (induction ns arbitrary: acc) (auto simp: clean_def)

lemma norm_segs_leading_dotdot:
  "norm_segs False [] (replicate k (js ''..'') @ rest) = norm_segs False [] rest"
  by (induction k) (auto simp: js_def)

lemma norm_segs_relative:
  "list_all clean acc \<Longrightarrow>
   norm_segs False [] (norm_segs True (replicate k (js ''..'') @ acc) segs) = norm_segs False acc segs"
proof (induction segs arbitrary: k acc)
  case Nil
  then show ?case by (simp add: norm_segs_leading_dotdot norm_segs_of_clean)
next
  case (Cons s ss)
  show ?case
  proof (cases "s = [] \<or> s = js ''.''")
    case True
    then show ?thesis using Cons by auto
  next
    case False
    note ord = this
    show ?thesis
    proof (cases "s = js ''..''")
      case False
      with ord have "clean s" by (simp add: clean_def)
      with Cons.prems have "list_all clean (acc @ [s])" by simp
      from Cons.IH [OF this, of k] show ?thesis using ord False by simp
    next
      case True
      show ?thesis
      proof (cases "acc = []")
        case False
        then have l: "last (replicate k (js ''..'') @ acc) = last acc" by simp
        from False Cons.prems have "clean (last acc)" by (simp add: list_all_iff)
        then have ne: "last acc \<noteq> js ''..''" by (auto simp: clean_def)
        have bl: "list_all clean (butlast acc)"
          using Cons.prems by (auto simp: list_all_iff dest: in_set_butlastD)
        have "butlast (replicate k (js ''..'') @ acc) = replicate k (js ''..'') @ butlast acc"
          using False by (simp add: butlast_append)
        with Cons.IH [OF bl, of k] show ?thesis
          using True False l ne by (simp add: js_def)
      next
        case Nil: True
        have step: "norm_segs True (replicate k (js ''..'') @ []) (s # ss) =
            norm_segs True (replicate (Suc k) (js ''..'') @ []) ss"
          unfolding True by (cases k) (simp_all add: js_def replicate_append_same)
        have "list_all clean ([] :: jsstring list)" by simp
        from Cons.IH [OF this, of "Suc k"] show ?thesis
          unfolding Nil step using True by (simp add: js_def)
      qed
    qed
  qed
qed

lemma norm_segs_again:
  "norm_segs False [] (norm_segs b [] segs) = norm_segs False [] segs"
proof (cases b)
  case True
  have "list_all clean ([] :: jsstring list)" by simp
  from norm_segs_relative [OF this, of 0 segs] show ?thesis using True by simp
next
  case False
  have "list_all clean (norm_segs False [] segs)" by (rule norm_segs_clean) simp
  then show ?thesis using False by (simp add: norm_segs_of_clean)
qed

lemma plain_clean: "plain_name f \<Longrightarrow> clean f"
  by (simp add: plain_name_def clean_def)

lemma norm_segs_single: "clean f \<Longrightarrow> norm_segs b acc [f] = acc @ [f]"
  by (simp add: clean_def)

lemma norm_segs_empty_seg: "norm_segs b acc [[]] = acc"
  by simp

lemma normalized_segments:
  assumes "ns = norm_segs b [] (split_on slash x)"
  shows "\<forall>seg \<in> set ns. slash \<notin> set seg" and "[] \<notin> set ns"
proof -
  have "set ns \<subseteq> set (split_on slash x)"
    using norm_segs_subset [of b "[]" "split_on slash x"] assms by simp
  then show "\<forall>seg \<in> set ns. slash \<notin> set seg"
    using split_on_segments_free by blast
  show "[] \<notin> set ns"
    unfolding assms by (rule norm_segs_nonempty_segs) simp
qed

lemma path_normalize_shape:
  assumes "x \<noteq> []" and "ns = norm_segs (hd x \<noteq> slash) [] (split_on slash x)" and "ns \<noteq> []"
  shows "path_normalize x =
           (if hd x = slash then [slash] else []) @ join_with [slash] ns @
           (if last x = slash then [slash] else [])"
proof -
  have "[] \<notin> set ns" using normalized_segments(2) [OF assms(2)] .
  then have "join_with [slash] ns \<noteq> []" using join_with_eq_Nil assms(3) by blast
  then show ?thesis using assms by (simp add: path_normalize_def Let_def)
qed

lemma path_resolve_normalize: "path_resolve (path_normalize x) = path_resolve x"
proof (cases "x = []")
  case True
  then show ?thesis by (simp add: path_normalize_def path_resolve_def js_def slash_def)
next
  case False
  define ns where "ns = norm_segs (hd x \<noteq> slash) [] (split_on slash x)"
  have rhs: "path_resolve x = norm_segs False [] ns"
    unfolding path_resolve_def ns_def by (simp add: norm_segs_again)
  show ?thesis
  proof (cases "ns = []")
    case True
    then have "join_with [slash] ns = []" by simp
    then have "path_normalize x = [slash] \<or> path_normalize x = js ''./'' \<or> path_normalize x = js ''.''"
      using False unfolding ns_def by (auto simp: path_normalize_def Let_def)
    then have "path_resolve (path_normalize x) = []"
      by (auto simp: path_resolve_def js_def slash_def)
    then show ?thesis using rhs True by simp
  next
    case nonempty: False
    have free: "\<forall>seg \<in> set ns. slash \<notin> set seg"
      using normalized_segments(1) [OF ns_def] .
    have sj: "split_on slash (join_with [slash] ns) = ns"
      using split_join [OF nonempty free] .
    have tail: "split_on slash (join_with [slash] ns @ [slash]) = ns @ [[]]"
      using split_on_append [of slash "join_with [slash] ns" "[]"] sj by simp
    have drop_empty: "norm_segs False acc [[]] = acc" for acc
      by simp
    have "norm_segs False [] (split_on slash (path_normalize x)) = norm_segs False [] ns"
      unfolding path_normalize_shape [OF False ns_def nonempty]
      by (auto simp: sj tail norm_segs_append)
    then show ?thesis using rhs by (simp add: path_resolve_def)
  qed
qed

lemma path_join_two:
  "f \<noteq> [] \<Longrightarrow> path_join [d, f] = path_normalize (if d = [] then f else d @ slash # f)"
  by (simp add: path_join_def Let_def)

lemma path_resolve_Nil: "path_resolve [] = []"
  by (simp add: path_resolve_def)

lemma path_resolve_join:
  assumes "plain_name f"
  shows "path_resolve (path_join [d, f]) = path_resolve d @ [f]"
proof -
  have f: "f \<noteq> []" "slash \<notin> set f" "clean f"
    using assms by (simp_all add: plain_name_def clean_def)
  have "path_resolve (if d = [] then f else d @ slash # f) = path_resolve d @ [f]"
    using f by (auto simp: path_resolve_def split_on_append split_on_free norm_segs_append
        norm_segs_single norm_segs_empty_seg simp del: norm_segs.simps)
  then show ?thesis by (simp add: path_join_two [OF f(1)] path_resolve_normalize)
qed

lemma path_join_no_trailing:
  assumes "plain_name f"
  shows "path_join [d, f] \<noteq> [] \<and> last (path_join [d, f]) \<noteq> slash"
proof -
  have f: "f \<noteq> []" "slash \<notin> set f" "clean f"
    using assms by (simp_all add: plain_name_def clean_def)
  define x where "x = (if d = [] then f else d @ slash # f)"
  define ns where "ns = norm_segs (hd x \<noteq> slash) [] (split_on slash x)"
  have x: "x \<noteq> []" "last x = last f" using f by (auto simp: x_def)
  have "\<exists>acc. ns = acc @ [f]"
    unfolding ns_def x_def using f
    by (auto simp: split_on_append split_on_free norm_segs_append norm_segs_single
        simp del: norm_segs.simps)
  then obtain acc where acc: "ns = acc @ [f]" by blast
  then have ne: "ns \<noteq> []" by simp
  have lf: "last f \<noteq> slash" using f by (metis last_in_set)
  have q: "join_with [slash] ns \<noteq> [] \<and> last (join_with [slash] ns) = last f"
    unfolding acc using f by (simp add: join_with_snoc)
  have "path_normalize x = (if hd x = slash then [slash] else []) @ join_with [slash] ns"
    using path_normalize_shape [OF x(1) ns_def ne] x(2) lf by simp
  then have "path_normalize x \<noteq> [] \<and> last (path_normalize x) = last f"
    using q by simp
  then show ?thesis using lf by (simp add: path_join_two [OF f(1)] x_def)
qed

lemma path_join_three:
  "f \<noteq> [] \<Longrightarrow> d \<noteq> [] \<Longrightarrow> a \<noteq> [] \<Longrightarrow> path_join [a, d, f] = path_normalize (a @ slash # d @ slash # f)"
  by (simp add: path_join_def Let_def)

lemma path_resolve_join_three:
  assumes "plain_name d" and "plain_name f" and "a \<noteq> []"
  shows "path_resolve (path_join [a, d, f]) = path_resolve a @ [d, f]"
proof -
  have f: "f \<noteq> []" "slash \<notin> set f" "clean f"
    using assms by (simp_all add: plain_name_def clean_def)
  have d: "d \<noteq> []" "slash \<notin> set d" "clean d"
    using assms by (simp_all add: plain_name_def clean_def)
  have "path_resolve ((a @ slash # d) @ slash # f) = path_resolve (a @ slash # d) @ [f]"
    using f by (auto simp: path_resolve_def split_on_append split_on_free norm_segs_append
        norm_segs_single norm_segs_empty_seg simp del: norm_segs.simps append_assoc)
  moreover have "path_resolve (a @ slash # d) = path_resolve a @ [d]"
    using d by (auto simp: path_resolve_def split_on_append split_on_free norm_segs_append
        norm_segs_single norm_segs_empty_seg simp del: norm_segs.simps)
  ultimately have "path_resolve (a @ slash # d @ slash # f) = path_resolve a @ [d, f]"
    by simp
  then show ?thesis by (simp add: path_join_three [OF f(1) d(1) assms(3)] path_resolve_normalize)
qed

lemma stat_join:
  "plain_name f \<Longrightarrow> stat root (path_join [d, f]) = lookup root (path_resolve d @ [f])"
  using path_join_no_trailing [of f d]
  by (auto simp: stat_def path_resolve_join split: sum.splits node.splits)

lemma path_resolve_CONFIG: "path_resolve CONFIG_FILE = [js ''webresource-mapping.json'']"
  by code_simp

lemma path_resolve_WEBRESOURCES: "path_resolve WEBRESOURCES_DIR = [js ''src'', js ''webresources'']"
  by code_simp

lemma path_resolve_targetDir_of:
  "plain_name v \<Longrightarrow> path_resolve (targetDir_of v) = [js ''src'', js ''webresources'', v]"
  by (simp add: targetDir_of_def path_resolve_join path_resolve_WEBRESOURCES)

section \<open>Writing and reading a file\<close>

lemma map_of_snoc_fresh: "map_of es s = None \<Longrightarrow> map_of (es @ [(s, n)]) s = Some n"
  by (simp add: map_add_def)

lemma lookup_put_same:
  "put root p new = Inr root' \<Longrightarrow> \<exists>m. lookup root' p = Inr (File m new)"
proof (induction root p new arbitrary: root' rule: put.induct)
  case (1 m c new)
  then show ?case by (auto split: if_splits)
next
  case (2 es new)
  then show ?case by simp
next
  case (3 m c s ss new)
  then show ?case by simp
next
  case (4 es s ss new)
  show ?case
  proof (cases "map_of es s")
    case None
    with "4.prems" have ss: "ss = []" and r: "root' = Dir (es @ [(s, File ReadWrite new)])"
      by (auto split: if_splits)
    show ?thesis unfolding r ss using None by (simp add: map_add_def)
  next
    case (Some child)
    with "4.prems" obtain child' where c: "put child ss new = Inr child'"
      and r: "root' = Dir (AList.update s child' es)"
      by (auto split: sum.splits)
    from "4.IH" [OF Some c] obtain m where "lookup child' ss = Inr (File m new)" by blast
    then show ?thesis unfolding r by (auto simp: update_conv')
  qed
qed

lemma readFileSync_after_write:
  "writeFileSync root p new = Inr root' \<Longrightarrow> readFileSync root' p = Inr new"
proof -
  assume w: "writeFileSync root p new = Inr root'"
  then have notrail: "\<not> (p \<noteq> [] \<and> last p = slash)"
    and "put root (path_resolve p) new = Inr root'"
    by (auto simp: writeFileSync_def split: if_splits sum.splits)
  from lookup_put_same [OF this(2)] obtain m where "lookup root' (path_resolve p) = Inr (File m new)"
    by blast
  with notrail show ?thesis by (auto simp: readFileSync_def stat_def)
qed

lemma saveMapping_Returned:
  "saveMapping t w = Returned u w' \<Longrightarrow>
   writeFileSync (tree w) CONFIG_FILE (stringify_table t) = Inr (tree w') \<and> console w' = console w"
  by (auto simp: saveMapping_def writing_def split: sum.splits)



section \<open>The shape of the tree, and what a write leaves alone\<close>

lemma map_of_shape:
  "map_of (map (\<lambda>e. (fst e, shape (snd e))) es) s = map_option shape (map_of es s)"
  by (induction es) auto

lemma lookup_shape: "lookup (shape root) p = map_sum id shape (lookup root p)"
proof (induction root p rule: lookup.induct)
  case (3 es s ss)
  then show ?case by (cases "map_of es s") (simp_all add: map_of_shape)
qed simp_all

lemma stat_shape: "stat (shape root) p = map_sum id shape (stat root p)"
  by (auto simp: stat_def lookup_shape split: sum.splits node.splits)

lemma existsSync_shape: "existsSync (shape root) p = existsSync root p"
  by (auto simp: existsSync_def stat_shape split: sum.splits)

lemma readdirSync_shape: "readdirSync (shape root) p = readdirSync root p"
  by (auto simp: readdirSync_def stat_shape comp_def split: sum.splits node.splits)

lemma update_shape:
  "map (\<lambda>e. (fst e, g (snd e))) (AList.update k v es) =
   AList.update k (g v) (map (\<lambda>e. (fst e, g (snd e))) es)"
  by (induction es) auto

lemma put_shape: "put (shape root) p [] = map_sum id shape (put root p new)"
proof (induction root p new rule: put.induct)
  case (4 es s ss new)
  show ?case
  proof (cases "map_of es s")
    case None
    then show ?thesis by (simp add: map_of_shape)
  next
    case (Some child)
    with 4 show ?thesis
      by (cases "put child ss new") (simp_all add: map_of_shape update_shape)
  qed
qed simp_all

lemma put_overwrite_shape:
  "lookup root p = Inr n \<Longrightarrow> put root p new = Inr root' \<Longrightarrow> shape root' = shape root"
proof (induction root p new arbitrary: root' rule: put.induct)
  case (1 m c new)
  then show ?case by (auto split: if_splits)
next
  case (2 es new)
  then show ?case by auto
next
  case (3 m c s ss new)
  then show ?case by simp
next
  case (4 es s ss new)
  from "4.prems"(1) obtain child where c: "map_of es s = Some child" and l: "lookup child ss = Inr n"
    by (cases "map_of es s") auto
  with "4.prems"(2) obtain child' where p: "put child ss new = Inr child'"
    and r: "root' = Dir (AList.update s child' es)"
    by (auto split: sum.splits)
  from "4.IH" [OF c l p] have "shape child' = shape child" .
  moreover have "map_of (map (\<lambda>e. (fst e, shape (snd e))) es) s = Some (shape child)"
    by (simp add: map_of_shape c)
  ultimately show ?case
    unfolding r by (simp add: update_shape update_triv)
qed

lemma put_frame:
  "put root p new = Inr root' \<Longrightarrow> q \<noteq> p \<Longrightarrow> lookup root q = Inr (File m c) \<Longrightarrow>
   lookup root' q = Inr (File m c)"
proof (induction root p new arbitrary: root' q rule: put.induct)
  case (1 m' c' new)
  then show ?case by (cases q) auto
next
  case (2 es new)
  then show ?case by simp
next
  case (3 m' c' s ss new)
  then show ?case by simp
next
  case (4 es s ss new)
  from "4.prems"(3) obtain t ts where q: "q = t # ts" by (cases q) auto
  show ?case
  proof (cases "map_of es s")
    case None
    with "4.prems"(1) have r: "root' = Dir (es @ [(s, File ReadWrite new)])"
      by (auto split: if_splits)
    from "4.prems"(3) None have "t \<noteq> s" unfolding q by auto
    then show ?thesis using "4.prems"(3) unfolding r q by (simp add: map_add_def split: option.splits)
  next
    case (Some child)
    with "4.prems"(1) obtain child' where p: "put child ss new = Inr child'"
      and r: "root' = Dir (AList.update s child' es)"
      by (auto split: sum.splits)
    show ?thesis
    proof (cases "t = s")
      case True
      with "4.prems"(2) have ne: "ts \<noteq> ss" unfolding q by simp
      from "4.prems"(3) have "lookup child ts = Inr (File m c)" unfolding q True using Some by simp
      from "4.IH" [OF Some p ne this] show ?thesis unfolding r q True by (simp add: update_conv')
    next
      case False
      then show ?thesis using "4.prems"(3) unfolding r q by (simp add: update_conv')
    qed
  qed
qed

lemma well_named_shape: "well_named (shape root) = well_named root"
  by (induction root rule: well_named.induct) auto

lemma well_named_lookup:
  "well_named root \<Longrightarrow> lookup root p = Inr n \<Longrightarrow> well_named n"
proof (induction root p rule: lookup.induct)
  case (3 es s ss)
  from "3.prems"(2) obtain child where c: "map_of es s = Some child" and l: "lookup child ss = Inr n"
    by (cases "map_of es s") auto
  from c have "(s, child) \<in> set es" by (rule map_of_SomeD)
  with "3.prems"(1) have "well_named child" by auto
  from "3.IH" [OF c this l] show ?case .
qed simp_all

lemma lookup_append:
  "lookup root (p @ q) = (case lookup root p of Inl e \<Rightarrow> Inl e | Inr n \<Rightarrow> lookup n q)"
proof (induction root p rule: lookup.induct)
  case (3 es s ss)
  then show ?case by (cases "map_of es s") simp_all
qed simp_all

lemma readdir_child:
  assumes "well_named root" and "readdirSync root d = Inr entries" and "f \<in> set entries"
  shows "plain_name f" and "\<exists>n. stat root (path_join [d, f]) = Inr n"
proof -
  from assms(2) obtain es where st: "stat root d = Inr (Dir es)" and en: "entries = map fst es"
    by (auto simp: readdirSync_def split: sum.splits node.splits)
  from st have lk: "lookup root (path_resolve d) = Inr (Dir es)"
    by (auto simp: stat_def split: sum.splits node.splits if_splits)
  from well_named_lookup [OF assms(1) lk] have "\<forall>e \<in> set es. plain_name (fst e)" by simp
  with assms(3) en show pl: "plain_name f" by auto
  from assms(3) en obtain child where "map_of es f = Some child"
    by (cases "map_of es f") (auto simp: map_of_eq_None_iff)
  then have "lookup (Dir es) [f] = Inr child" by simp
  then have "lookup root (path_resolve d @ [f]) = Inr child"
    using lk by (simp add: lookup_append)
  then show "\<exists>n. stat root (path_join [d, f]) = Inr n"
    by (simp add: stat_join [OF pl])
qed

lemma writeFileSync_put:
  "writeFileSync root p new = Inr root' \<Longrightarrow>
   put root (path_resolve p) new = Inr root' \<and> \<not> (p \<noteq> [] \<and> last p = slash)"
  by (auto simp: writeFileSync_def split: if_splits sum.splits)

lemma stat_lookup: "stat root p = Inr n \<Longrightarrow> \<exists>n'. lookup root (path_resolve p) = Inr n'"
  by (auto simp: stat_def split: sum.splits)

lemma writeFileSync_overwrite:
  assumes "writeFileSync root p new = Inr root'" and "stat root p = Inr n"
  shows "shape root' = shape root"
proof -
  from stat_lookup [OF assms(2)] obtain n' where "lookup root (path_resolve p) = Inr n'" by blast
  moreover from writeFileSync_put [OF assms(1)] have "put root (path_resolve p) new = Inr root'" by simp
  ultimately show ?thesis by (rule put_overwrite_shape)
qed

lemma readFileSync_same_shape:
  assumes sh: "shape root' = shape root"
    and frame: "\<And>m c. lookup root (path_resolve q) = Inr (File m c) \<Longrightarrow>
                  lookup root' (path_resolve q) = Inr (File m c)"
  shows "readFileSync root' q = readFileSync root q"
proof -
  have eq: "map_sum id shape (lookup root' (path_resolve q)) = map_sum id shape (lookup root (path_resolve q))"
    using sh lookup_shape [of root' "path_resolve q"] lookup_shape [of root "path_resolve q"] by simp
  show ?thesis
  proof (cases "lookup root (path_resolve q)")
    case (Inl e)
    with eq have "lookup root' (path_resolve q) = Inl e"
      by (cases "lookup root' (path_resolve q)") auto
    with Inl show ?thesis by (simp add: readFileSync_def stat_def)
  next
    case (Inr n)
    show ?thesis
    proof (cases n)
      case (File m c)
      with Inr frame have "lookup root' (path_resolve q) = Inr (File m c)" by simp
      with Inr File show ?thesis by (simp add: readFileSync_def stat_def)
    next
      case (Dir es)
      with Inr eq have "map_sum id shape (lookup root' (path_resolve q)) = Inr (shape (Dir es))"
        by simp
      then obtain n' where n': "lookup root' (path_resolve q) = Inr n'" and "shape n' = shape (Dir es)"
        by (cases "lookup root' (path_resolve q)") auto
      then obtain es' where "n' = Dir es'" by (cases n') auto
      with n' have "lookup root' (path_resolve q) = Inr (Dir es')" by simp
      with Inr Dir show ?thesis by (simp add: readFileSync_def stat_def)
    qed
  qed
qed

lemma writeFileSync_frame:
  assumes "writeFileSync root p new = Inr root'" and "stat root p = Inr n"
    and "path_resolve q \<noteq> path_resolve p"
  shows "readFileSync root' q = readFileSync root q"
proof (rule readFileSync_same_shape)
  show "shape root' = shape root" using writeFileSync_overwrite [OF assms(1,2)] .
  fix m c
  assume "lookup root (path_resolve q) = Inr (File m c)"
  moreover from writeFileSync_put [OF assms(1)] have "put root (path_resolve p) new = Inr root'"
    by simp
  ultimately show "lookup root' (path_resolve q) = Inr (File m c)"
    using put_frame assms(3) by blast
qed

lemma readdirSync_same_shape: "shape root' = shape root \<Longrightarrow> readdirSync root' d = readdirSync root d"
  using readdirSync_shape [of root' d] readdirSync_shape [of root d] by simp

lemma existsSync_same_shape: "shape root' = shape root \<Longrightarrow> existsSync root' d = existsSync root d"
  using existsSync_shape [of root' d] existsSync_shape [of root d] by simp

lemma well_named_same_shape: "shape root' = shape root \<Longrightarrow> well_named root' = well_named root"
  using well_named_shape [of root'] well_named_shape [of root] by simp



section \<open>A write at the top of the tree\<close>

lemma lookup_put_other:
  assumes "put root [s] new = Inr root'" and "q \<noteq> s"
  shows "lookup root' (q # qs) = lookup root (q # qs)"
proof (cases root)
  case (File m c)
  with assms(1) show ?thesis by simp
next
  case (Dir es)
  show ?thesis
  proof (cases "map_of es s")
    case None
    with assms(1) Dir have "root' = Dir (es @ [(s, File ReadWrite new)])" by simp
    then show ?thesis using assms(2) Dir by (auto simp: map_add_def split: option.splits)
  next
    case (Some child)
    with assms(1) Dir obtain child' where "root' = Dir (AList.update s child' es)"
      by (auto split: sum.splits)
    then show ?thesis using assms(2) Dir by (simp add: update_conv')
  qed
qed

lemma stat_put_other:
  assumes "put root [s] new = Inr root'" and "path_resolve p = q # qs" and "q \<noteq> s"
  shows "stat root' p = stat root p"
  using lookup_put_other [OF assms(1,3)] by (simp add: stat_def assms(2))

lemma put_again:
  "put root p new = Inr root' \<Longrightarrow> \<exists>root''. put root' p new2 = Inr root''"
proof (induction root p new arbitrary: root' rule: put.induct)
  case (1 m c new)
  then show ?case by (auto split: if_splits)
next
  case (2 es new)
  then show ?case by simp
next
  case (3 m c s ss new)
  then show ?case by simp
next
  case (4 es s ss new)
  show ?case
  proof (cases "map_of es s")
    case None
    with "4.prems" have r: "root' = Dir (es @ [(s, File ReadWrite new)])" and ss: "ss = []"
      by (auto split: if_splits)
    have "map_of (es @ [(s, File ReadWrite new)]) s = Some (File ReadWrite new)"
      using None by (rule map_of_snoc_fresh)
    then show ?thesis unfolding r ss by (simp del: map_of_append)
  next
    case (Some child)
    with "4.prems" obtain child' where c: "put child ss new = Inr child'"
      and r: "root' = Dir (AList.update s child' es)"
      by (auto split: sum.splits)
    from "4.IH" [OF Some c] obtain child'' where "put child' ss new2 = Inr child''" by blast
    then show ?thesis unfolding r by (simp add: update_conv')
  qed
qed

section \<open>The table that a save leaves in the mapping file\<close>

lemma saved_table_is_loaded:
  assumes "distinct (map fst t)" and "saveMapping t w = Returned () w'"
  shows "loadMapping w' = Returned (json_of_table t) w' \<and>
         loadMapping_new w' = Returned (json_of_table t) w' \<and>
         table_of_json (json_of_table t) = Some t \<and>
         persisted w' = Some t"
proof -
  from saveMapping_Returned [OF assms(2)]
  have "readFileSync (tree w') CONFIG_FILE = Inr (stringify_table t)"
    using readFileSync_after_write by blast
  moreover from this have "existsSync (tree w') CONFIG_FILE" by (rule readFileSync_exists)
  ultimately show ?thesis
    by (simp add: loadMapping_cases loadMapping_new_cases persisted_def
        JSON_parse_stringify_table [OF assms(1)] table_of_json_of_table)
qed




section \<open>Names and kinds\<close>









lemma kind_Nil: "kind root [] = Some (isDirectory root)"
  by (simp add: kind_def)

lemma kind_File: "kind (File m c) (s # ss) = None"
  by (simp add: kind_def)

lemma kind_Dir:
  "kind (Dir es) (s # ss) = (case map_of es s of None \<Rightarrow> None | Some child \<Rightarrow> kind child ss)"
  by (simp add: kind_def split: option.splits)

lemma existsSync_kind:
  "existsSync root p =
     (case kind root (path_resolve p) of
        None \<Rightarrow> False
      | Some d \<Rightarrow> d \<or> \<not> (p \<noteq> [] \<and> last p = slash))"
  by (auto simp: existsSync_def stat_def kind_def isDirectory_def split: sum.splits node.splits)

lemma isDirectory_shape: "isDirectory (shape n) = isDirectory n"
  by (cases n) (simp_all add: isDirectory_def)

lemma kind_shape: "kind (shape root) q = kind root q"
  by (cases "lookup root q") (simp_all add: kind_def lookup_shape isDirectory_shape)

lemma kind_same_shape: "shape root' = shape root \<Longrightarrow> kind root' q = kind root q"
  using kind_shape [of root' q] kind_shape [of root q] by simp


section \<open>Replacing and removing a file\<close>


lemma lookup_replace_None:
  "lookup root p = Inr (File m c) \<Longrightarrow> p \<noteq> [] \<Longrightarrow> \<exists>e. lookup (replace root p None) p = Inl e"
proof (induction root p "None :: node option" rule: replace.induct)
  case (3 es s ss)
  from "3.prems" obtain child where c: "map_of es s = Some child"
    and l: "lookup child ss = Inr (File m c)"
    by (cases "map_of es s") auto
  show ?case
  proof (cases "ss = []")
    case True
    with c show ?thesis by (simp add: delete_conv')
  next
    case False
    from "3.hyps" [OF c False l False] c False show ?thesis by (auto simp: update_conv')
  qed
qed simp_all

lemma replace_frame:
  "lookup root p = Inr (File m c) \<Longrightarrow> q \<noteq> p \<Longrightarrow> lookup root q = Inr (File m' c') \<Longrightarrow>
   lookup (replace root p x) q = Inr (File m' c')"
proof (induction root p x arbitrary: q rule: replace.induct)
  case (1 n x)
  then show ?case by (cases q) auto
next
  case (2 m0 c0 s ss x)
  then show ?case by simp
next
  case (3 es s ss x)
  from "3.prems"(1) obtain child where c: "map_of es s = Some child"
    and l: "lookup child ss = Inr (File m c)"
    by (cases "map_of es s") auto
  from "3.prems"(3) obtain t ts where q: "q = t # ts" by (cases q) auto
  show ?case
  proof (cases "t = s")
    case False
    with "3.prems"(3) c show ?thesis
      unfolding q by (auto simp: update_conv' delete_conv' split: option.splits)
  next
    case True
    from "3.prems"(3) c have lq: "lookup child ts = Inr (File m' c')" unfolding q True by simp
    from "3.prems"(2) have ne: "ts \<noteq> ss" unfolding q True by simp
    show ?thesis
    proof (cases "ss = []")
      case True
      with l obtain "child = File m c" by simp
      with lq have "ts = []" by (cases ts) auto
      with ne True show ?thesis by simp
    next
      case False
      from "3.IH" [OF c False l ne lq] c False show ?thesis
        unfolding q True by (simp add: update_conv')
    qed
  qed
qed



lemma shape_replace_file:
  "lookup root p = Inr (File m c) \<Longrightarrow> shape (replace root p (Some (File m c'))) = shape root"
proof (induction root p "Some (File m c')" rule: replace.induct)
  case (3 es s ss)
  from "3.prems" obtain child where c: "map_of es s = Some child"
    and l: "lookup child ss = Inr (File m c)"
    by (cases "map_of es s") auto
  have look: "map_of (map (\<lambda>e. (fst e, shape (snd e))) es) s = Some (shape child)"
    by (simp add: map_of_shape c)
  show ?case
  proof (cases "ss = []")
    case True
    with l have "child = File m c" by simp
    with c True look show ?thesis by (simp add: update_shape update_triv)
  next
    case False
    from "3.hyps" [OF c False l] c False look show ?thesis
      by (simp add: update_shape update_triv)
  qed
qed simp_all

lemma kind_replace:
  assumes "lookup root p = Inr (File m c)" and "x = None \<or> (\<exists>m' c'. x = Some (File m' c'))"
  shows "kind (replace root p x) q = kind root q \<or> kind (replace root p x) q = None"
    and "length q < length p \<Longrightarrow> kind (replace root p x) q = kind root q"
proof -
  have "(kind (replace root p x) q = kind root q \<or> kind (replace root p x) q = None) \<and>
      (length q < length p \<longrightarrow> kind (replace root p x) q = kind root q)"
    using assms
  proof (induction root p x arbitrary: q rule: replace.induct)
    case (1 n x)
    then show ?case by (cases q) (auto simp: kind_def isDirectory_def)
  next
    case (2 m0 c0 s ss x)
    then show ?case by simp
  next
    case (3 es s ss x)
    from "3.prems"(1) obtain child where c: "map_of es s = Some child"
      and l: "lookup child ss = Inr (File m c)"
      by (cases "map_of es s") auto
    show ?case
    proof (cases q)
      case Nil
      with c show ?thesis by (simp add: kind_Nil isDirectory_def split: option.splits)
    next
      case (Cons t ts)
      show ?thesis
      proof (cases "t = s")
        case False
        with c show ?thesis
          unfolding Cons by (auto simp: kind_Dir update_conv' delete_conv' split: option.splits)
      next
        case True
        show ?thesis
        proof (cases "ss = []")
          case ss: True
          with l have ch: "child = File m c" by simp
          show ?thesis
            using "3.prems"(2) c ss ch unfolding Cons True
            by (cases ts) (auto simp: kind_Dir kind_Nil kind_File update_conv' delete_conv' isDirectory_def)
        next
          case False
          from "3.IH" [OF c False l "3.prems"(2), of ts] c False show ?thesis
            unfolding Cons True by (simp add: kind_Dir update_conv')
        qed
      qed
    qed
  qed
  then show "kind (replace root p x) q = kind root q \<or> kind (replace root p x) q = None"
    and "length q < length p \<Longrightarrow> kind (replace root p x) q = kind root q"
    by simp_all
qed

lemma well_named_update:
  "\<forall>e \<in> set es. plain_name (fst e) \<and> well_named (snd e) \<Longrightarrow> map_of es s = Some child \<Longrightarrow>
   well_named n \<Longrightarrow> \<forall>e \<in> set (AList.update s n es). plain_name (fst e) \<and> well_named (snd e)"
proof (induction es)
  case Nil
  then show ?case by simp
next
  case (Cons e es)
  then show ?case by (cases e) (auto split: if_splits)
qed

lemma well_named_replace:
  "well_named root \<Longrightarrow> x = None \<or> (\<exists>m' c'. x = Some (File m' c')) \<Longrightarrow>
   well_named (replace root p x)"
proof (induction root p x rule: replace.induct)
  case (1 n x)
  then show ?case by auto
next
  case (2 m0 c0 s ss x)
  then show ?case by simp
next
  case (3 es s ss x)
  show ?case
  proof (cases "map_of es s")
    case None
    with "3.prems"(1) show ?thesis by simp
  next
    case (Some child)
    then have "(s, child) \<in> set es" by (rule map_of_SomeD)
    with "3.prems"(1) have wc: "well_named child" by auto
    from "3.prems"(1) have all: "\<forall>e \<in> set es. plain_name (fst e) \<and> well_named (snd e)" by simp
    show ?thesis
    proof (cases "ss = []")
      case True
      show ?thesis
      proof (cases x)
        case None
        have "set (AList.delete s es) \<subseteq> set es" by (induction es) auto
        with all None Some True show ?thesis by auto
      next
        case (Some n)
        with "3.prems"(2) have "well_named n" by auto
        from well_named_update [OF all \<open>map_of es s = Some child\<close> this] Some True
          \<open>map_of es s = Some child\<close>
        show ?thesis by simp
      qed
    next
      case False
      from "3.IH" [OF Some False wc "3.prems"(2)] have "well_named (replace child ss x)" .
      from well_named_update [OF all Some this] Some False show ?thesis by simp
    qed
  qed
qed

lemma lookup_put_file:
  "lookup root p = Inr (File m c) \<Longrightarrow> put root p new = Inr root' \<Longrightarrow>
   m = ReadWrite \<and> lookup root' p = Inr (File ReadWrite new)"
proof (induction root p new arbitrary: root' rule: put.induct)
  case (1 m0 c0 new)
  then show ?case by (cases m0) (auto split: if_splits)
next
  case (2 es new)
  then show ?case by simp
next
  case (3 m0 c0 s ss new)
  then show ?case by simp
next
  case (4 es s ss new)
  from "4.prems"(1) obtain child where c: "map_of es s = Some child"
    and l: "lookup child ss = Inr (File m c)"
    by (cases "map_of es s") auto
  with "4.prems"(2) obtain child' where p: "put child ss new = Inr child'"
    and r: "root' = Dir (AList.update s child' es)"
    by (auto split: sum.splits)
  from "4.IH" [OF c l p] show ?case unfolding r by (simp add: update_conv')
qed

section \<open>Copying a file\<close>

lemma stat_File_lookup:
  "stat root p = Inr (File m c) \<Longrightarrow>
   lookup root (path_resolve p) = Inr (File m c) \<and> \<not> (p \<noteq> [] \<and> last p = slash)"
  by (auto simp: stat_def split: sum.splits node.splits if_splits)

lemma copyFileSync_not_opened:
  "stat root src = Inl e \<Longrightarrow> copyFileSync root src dest = (Some (SystemError e), root)"
  "stat root src = Inr n \<Longrightarrow> writeFileSync root dest [] = Inl e' \<Longrightarrow>
   copyFileSync root src dest = (Some e', root)"
  by (simp_all add: copyFileSync_def)

lemma put_on_file:
  "put root p new = Inr root' \<Longrightarrow> lookup root p = Inr n \<Longrightarrow> \<exists>m c. n = File m c"
proof (induction root p new arbitrary: root' rule: put.induct)
  case (4 es s ss new)
  from "4.prems"(2) obtain child where c: "map_of es s = Some child" and l: "lookup child ss = Inr n"
    by (cases "map_of es s") auto
  with "4.prems"(1) obtain child' where p: "put child ss new = Inr child'"
    by (auto split: sum.splits)
  from "4.IH" [OF c p l] show ?case .
qed auto

lemma opened_same_file:
  assumes "writeFileSync root dest [] = Inr opened" and "stat root src = Inr n"
    and "path_resolve src = path_resolve dest"
  shows "\<exists>m c. stat root src = Inr (File m c)"
proof -
  from writeFileSync_put [OF assms(1)] have p: "put root (path_resolve dest) [] = Inr opened" by simp
  from stat_lookup [OF assms(2)] obtain n' where l: "lookup root (path_resolve src) = Inr n'" by blast
  from put_on_file [OF p l [unfolded assms(3)]] obtain m c where "n' = File m c" by blast
  with l assms(2) show ?thesis by (auto simp: stat_def split: if_splits)
qed

lemma isl_stat_shape: "shape r1 = shape r2 \<Longrightarrow> map_sum id shape (stat r1 p) = map_sum id shape (stat r2 p)"
  using stat_shape [of r1 p] stat_shape [of r2 p] by simp

lemma isl_readFileSync_shape:
  assumes "shape r1 = shape r2"
  shows "isl (readFileSync r1 p) = isl (readFileSync r2 p)"
proof -
  from isl_stat_shape [OF assms, of p] show ?thesis
    by (cases "stat r1 p"; cases "stat r2 p")
       (auto simp: readFileSync_def split: node.splits)
qed

lemma isl_put_shape:
  assumes "shape r1 = shape r2"
  shows "isl (put r1 p new1) = isl (put r2 p new2)"
proof -
  have "map_sum id shape (put r1 p new1) = map_sum id shape (put r2 p new2)"
    using put_shape [of r1 p new1] put_shape [of r2 p new2] assms by simp
  then show ?thesis by (cases "put r1 p new1"; cases "put r2 p new2") auto
qed

lemma isl_writeFileSync_shape:
  "shape r1 = shape r2 \<Longrightarrow> isl (writeFileSync r1 p new1) = isl (writeFileSync r2 p new2)"
  using isl_put_shape [of r1 r2 "path_resolve p" new1 new2]
  by (auto simp: writeFileSync_def split: sum.splits)

text \<open>What a copy can leave: the tree as it was, or the tree with the destination replaced or removed.\<close>

lemma copyFileSync_result:
  assumes "copyFileSync root src dest = (eo, root')"
  shows "root' = root \<and> (eo = None \<longrightarrow> path_resolve src = path_resolve dest \<and>
            (\<exists>m c. stat root src = Inr (File m c)) \<and> (\<exists>opened. writeFileSync root dest [] = Inr opened)) \<or>
         (\<exists>opened x. writeFileSync root dest [] = Inr opened \<and>
            path_resolve src \<noteq> path_resolve dest \<and>
            root' = replace opened (path_resolve dest) x \<and>
            (eo = None \<and> (\<exists>m c. stat root src = Inr (File m c) \<and> x = Some (File m c)) \<or>
             eo = Some (SystemError EISDIR) \<and> (\<exists>es. stat root src = Inr (Dir es)) \<and> x = None))"
proof (cases "stat root src")
  case (Inl e)
  with assms show ?thesis by (auto simp: copyFileSync_def)
next
  case (Inr source)
  show ?thesis
  proof (cases "writeFileSync root dest []")
    case (Inl e)
    with Inr assms show ?thesis by (auto simp: copyFileSync_def)
  next
    case opened: (Inr opened)
    show ?thesis
    proof (cases "path_resolve src = path_resolve dest")
      case True
      from opened_same_file [OF opened Inr True] True Inr opened assms show ?thesis
        by (simp add: copyFileSync_def)
    next
      case False
      with Inr opened assms show ?thesis
        by (cases source) (auto simp: copyFileSync_def)
    qed
  qed
qed

lemma opened_lookup:
  assumes "writeFileSync root dest [] = Inr opened"
  shows "\<exists>m. lookup opened (path_resolve dest) = Inr (File m [])"
    and "\<not> (dest \<noteq> [] \<and> last dest = slash)"
  using writeFileSync_put [OF assms] lookup_put_same by blast+

lemma opened_existing:
  assumes "writeFileSync root dest [] = Inr opened" and "stat root dest = Inr n"
  shows "shape opened = shape root"
    and "\<exists>c. lookup root (path_resolve dest) = Inr (File ReadWrite c)"
    and "lookup opened (path_resolve dest) = Inr (File ReadWrite [])"
proof -
  show "shape opened = shape root" using writeFileSync_overwrite [OF assms] .
  from writeFileSync_put [OF assms(1)]
  have p: "put root (path_resolve dest) [] = Inr opened" by simp
  from stat_lookup [OF assms(2)] obtain n' where l: "lookup root (path_resolve dest) = Inr n'"
    by blast
  from lookup_put_same [OF p] obtain m where lo: "lookup opened (path_resolve dest) = Inr (File m [])"
    by blast
  have "map_sum id shape (lookup opened (path_resolve dest)) = map_sum id shape (lookup root (path_resolve dest))"
    using \<open>shape opened = shape root\<close> lookup_shape [of opened "path_resolve dest"]
      lookup_shape [of root "path_resolve dest"] by simp
  with l lo have "shape n' = File m []" by simp
  then obtain c where n': "n' = File m c" by (cases n') auto
  from lookup_put_file [OF l [unfolded n'] p]
  show "\<exists>c. lookup root (path_resolve dest) = Inr (File ReadWrite c)"
    and "lookup opened (path_resolve dest) = Inr (File ReadWrite [])"
    using l n' by auto
qed

lemma copyFileSync_kind:
  assumes "copyFileSync root src dest = (eo, root')" and "stat root dest = Inr n"
  shows "kind root' q = kind root q \<or> kind root' q = None"
    and "length q < length (path_resolve dest) \<Longrightarrow> kind root' q = kind root q"
    and "well_named root \<Longrightarrow> well_named root'"
proof -
  from copyFileSync_result [OF assms(1)]
  consider "root' = root"
    | opened x where "writeFileSync root dest [] = Inr opened"
        "root' = replace opened (path_resolve dest) x"
        "x = None \<or> (\<exists>m c. x = Some (File m c))"
    by blast
  then have "(kind root' q = kind root q \<or> kind root' q = None) \<and>
      (length q < length (path_resolve dest) \<longrightarrow> kind root' q = kind root q) \<and>
      (well_named root \<longrightarrow> well_named root')"
  proof cases
    case 1
    then show ?thesis by simp
  next
    case 2
    note o = opened_existing [OF 2(1) assms(2)]
    have k: "kind opened q = kind root q" for q using kind_same_shape [OF o(1)] .
    have w: "well_named opened = well_named root" using well_named_same_shape [OF o(1)] .
    from kind_replace [OF o(3) 2(3), of q] well_named_replace [OF _ 2(3), of opened "path_resolve dest"]
    show ?thesis unfolding 2(2) k w by blast
  qed
  then show "kind root' q = kind root q \<or> kind root' q = None"
    and "length q < length (path_resolve dest) \<Longrightarrow> kind root' q = kind root q"
    and "well_named root \<Longrightarrow> well_named root'"
    by simp_all
qed

lemma copyFileSync_frame:
  assumes "copyFileSync root src dest = (eo, root')" and "q \<noteq> path_resolve dest"
    and "lookup root q = Inr (File m c)"
  shows "lookup root' q = Inr (File m c)"
proof -
  from copyFileSync_result [OF assms(1)]
  consider "root' = root"
    | opened x where "writeFileSync root dest [] = Inr opened"
        "root' = replace opened (path_resolve dest) x"
    by blast
  then show ?thesis
  proof cases
    case 1
    with assms(3) show ?thesis by simp
  next
    case 2
    from writeFileSync_put [OF 2(1)] have "put root (path_resolve dest) [] = Inr opened" by simp
    from put_frame [OF this assms(2,3)] have "lookup opened q = Inr (File m c)" .
    moreover from opened_lookup(1) [OF 2(1)] obtain m0
      where "lookup opened (path_resolve dest) = Inr (File m0 [])" by blast
    ultimately show ?thesis unfolding 2(2) using replace_frame assms(2) by blast
  qed
qed

lemma readFileSync_frame:
  assumes "copyFileSync root src dest = (eo, root')" and "path_resolve p \<noteq> path_resolve dest"
    and "readFileSync root p = Inr c"
  shows "readFileSync root' p = Inr c"
proof -
  from assms(3) obtain m where st: "stat root p = Inr (File m c)"
    by (auto simp: readFileSync_def split: sum.splits node.splits)
  from stat_File_lookup [OF this] copyFileSync_frame [OF assms(1,2)]
  have "lookup root' (path_resolve p) = Inr (File m c)" and "\<not> (p \<noteq> [] \<and> last p = slash)"
    by auto
  then show ?thesis by (auto simp: readFileSync_def stat_def)
qed

lemma copyFileSync_failed:
  assumes "copyFileSync root src dest = (Some e, root')"
  shows "root' = root \<or> \<not> existsSync root' dest"
proof -
  from copyFileSync_result [OF assms]
  consider "root' = root"
    | opened es where "writeFileSync root dest [] = Inr opened"
        "root' = replace opened (path_resolve dest) None" "stat root src = Inr (Dir es)"
        "path_resolve src \<noteq> path_resolve dest"
    by auto
  then show ?thesis
  proof cases
    case 1
    then show ?thesis by simp
  next
    case 2
    from opened_lookup(1) [OF 2(1)] obtain m
      where lo: "lookup opened (path_resolve dest) = Inr (File m [])" by blast
    have ne: "path_resolve dest \<noteq> []"
    proof
      assume nil: "path_resolve dest = []"
      with lo have "opened = File m []" by simp
      moreover from writeFileSync_put [OF 2(1)] nil have "put root [] [] = Inr opened" by simp
      ultimately obtain m' c' where "root = File m' c'" by (cases root) auto
      with 2(3) have "path_resolve src = []"
        by (cases "path_resolve src") (auto simp: stat_def split: sum.splits)
      with nil 2(4) show False by simp
    qed
    from lookup_replace_None [OF lo ne] obtain e' where "lookup root' (path_resolve dest) = Inl e'"
      unfolding 2(2) by blast
    then show ?thesis by (simp add: existsSync_def stat_def)
  qed
qed


lemma writable_file_stat: "writable_file root p \<longleftrightarrow> (\<exists>c. stat root p = Inr (File ReadWrite c))"
  by (auto simp: writable_file_def split: sum.splits node.splits)

lemma writable_file_same_shape:
  "shape root' = shape root \<Longrightarrow> writable_file root' p = writable_file root p"
proof -
  assume "shape root' = shape root"
  then have "map_sum id shape (stat root' p) = map_sum id shape (stat root p)"
    using stat_shape [of root' p] stat_shape [of root p] by simp
  then show ?thesis
    by (cases "stat root' p"; cases "stat root p")
       (auto simp: writable_file_def split: node.splits)
qed

lemma copyFileSync_regular:
  assumes "copyFileSync root src dest = (eo, root')" and "stat root dest = Inr n"
    and "writable_file root src"
  shows "shape root' = shape root"
proof -
  from assms(3) obtain c where src: "stat root src = Inr (File ReadWrite c)"
    by (auto simp: writable_file_stat)
  from copyFileSync_result [OF assms(1)] src
  consider "root' = root"
    | opened where "writeFileSync root dest [] = Inr opened"
        "root' = replace opened (path_resolve dest) (Some (File ReadWrite c))"
    by auto
  then show ?thesis
  proof cases
    case 1
    then show ?thesis by simp
  next
    case 2
    note o = opened_existing [OF 2(1) assms(2)]
    from shape_replace_file [OF o(3)] o(1) show ?thesis unfolding 2(2) by simp
  qed
qed

lemma copyFileSync_same_shape:
  assumes "shape r1 = shape r2"
  shows "(fst (copyFileSync r1 s d) = None) = (fst (copyFileSync r2 s d) = None)"
proof -
  have st: "map_sum id shape (stat r1 s) = map_sum id shape (stat r2 s)"
    using stat_shape [of r1 s] stat_shape [of r2 s] assms by simp
  have wr: "isl (writeFileSync r1 d []) = isl (writeFileSync r2 d [])"
    using isl_writeFileSync_shape [OF assms] .
  show ?thesis
  proof (cases "stat r1 s"; cases "stat r2 s")
    fix n1 n2 assume s: "stat r1 s = Inr n1" "stat r2 s = Inr n2"
    with st have sn: "shape n1 = shape n2" by simp
    show ?thesis
      using wr sn s
      by (cases "writeFileSync r1 d []"; cases "writeFileSync r2 d []"; cases n1; cases n2)
         (auto simp: copyFileSync_def)
  qed (use st in \<open>auto simp: copyFileSync_def\<close>)
qed

section \<open>The mapping store: saving, then loading\<close>

text \<open>
  C3. A mapping table is an object with string values; its keys are distinct. When
  \<open>saveMapping\<close> has written the table, \<open>loadMapping\<close> (of either script) returns the
  same table, with the same keys in the same order and the same value for each, and
  prints nothing.
\<close>

theorem save_then_load:
  assumes "distinct (map fst t)" and "saveMapping t w = Returned () w'"
  shows "loadMapping w' = Returned (json_of_table t) w' \<and>
         loadMapping_new w' = Returned (json_of_table t) w' \<and>
         table_of_json (json_of_table t) = Some t \<and>
         persisted w' = Some t"
  using assms by (rule saved_table_is_loaded)

theorem save_then_load_witness:
  "distinct (map fst example_table) \<and>
   saveMapping example_table \<lparr>tree = example_root, console = []\<rparr> =
     Returned () \<lparr>tree = example_saved_root, console = []\<rparr> \<and>
   loadMapping \<lparr>tree = example_saved_root, console = []\<rparr> =
     Returned (json_of_table example_table) \<lparr>tree = example_saved_root, console = []\<rparr> \<and>
   persisted \<lparr>tree = example_saved_root, console = []\<rparr> = Some example_table"
proof -
  have d: "distinct (map fst example_table)"
    by code_simp
  have s: "saveMapping example_table \<lparr>tree = example_root, console = []\<rparr> =
      Returned () \<lparr>tree = example_saved_root, console = []\<rparr>"
    by code_simp
  show ?thesis
    using save_then_load [OF d s] d s by simp
qed


section \<open>One file of the sync\<close>

lemma tree_say: "tree (say d m w) = tree w"
  by (simp add: say_def)

lemma console_say: "console (say d m w) = console w @ [(d, m)]"
  by (simp add: say_def)

lemma syncFile_cases:
  "syncFile sourceFile targetDir mapping w =
     (case readdirSync (tree w) targetDir of
        Inl e \<Rightarrow> Thrown e w
      | Inr entries \<Rightarrow>
          (case filter (\<lambda>f. endsWith f (js ''.js'')) entries of
             [] \<Rightarrow> Returned (False, mapping) (say (Some sourceFile) (NoJsFiles targetDir) w)
           | first # others \<Rightarrow>
               (case copyFileSync (tree w) sourceFile (path_join [targetDir, first]) of
                  (Some e, root') \<Rightarrow>
                    Returned (False, mapping)
                      (say (Some sourceFile) (SyncFailed (path_basename sourceFile) e)
                         (w\<lparr>tree := root'\<rparr>))
                | (None, root') \<Rightarrow>
                    Returned (True, AList.update (tsFileName sourceFile) (path_basename targetDir) mapping)
                      (say (Some sourceFile)
                         (Synced (path_basename sourceFile) (path_basename (path_join [targetDir, first])))
                         (w\<lparr>tree := root'\<rparr>)))))"
  by (simp add: syncFile_def copy_and_record_def try_catch_def copying_def
      split: sum.splits list.splits prod.splits option.splits)

lemma syncFile_Thrown:
  "syncFile sourceFile targetDir mapping w = Thrown e w' \<Longrightarrow>
   readdirSync (tree w) targetDir = Inl e \<and> w' = w"
  by (auto simp: syncFile_cases split: sum.splits list.splits prod.splits option.splits)


lemma filter_first_member: "filter P xs = y # ys \<Longrightarrow> y \<in> set xs"
proof -
  assume "filter P xs = y # ys"
  then have "y \<in> set (filter P xs)" by simp
  then show ?thesis by simp
qed

text \<open>
  What a call of \<open>syncFile\<close> that returns leaves: no path names anything new, and the
  paths no longer than that of the target folder name what they named.
\<close>

lemma syncFile_Returned:
  assumes "well_named (tree w)" and "syncFile a d m w = Returned (ok, m') w'"
  shows "well_named (tree w')"
    and "kind (tree w') q = kind (tree w) q \<or> kind (tree w') q = None"
    and "length q \<le> length (path_resolve d) \<Longrightarrow> kind (tree w') q = kind (tree w) q"
    and "\<exists>ev. console w' = console w @ [(Some a, ev)]"
    and "m' = (if ok then AList.update (tsFileName a) (path_basename d) m else m)"
    and "writable_file (tree w) a \<Longrightarrow> shape (tree w') = shape (tree w)"
proof -
  from assms(2) obtain entries where rd: "readdirSync (tree w) d = Inr entries"
    by (auto simp: syncFile_cases split: sum.splits)
  have "well_named (tree w') \<and>
      (kind (tree w') q = kind (tree w) q \<or> kind (tree w') q = None) \<and>
      (length q \<le> length (path_resolve d) \<longrightarrow> kind (tree w') q = kind (tree w) q) \<and>
      (writable_file (tree w) a \<longrightarrow> shape (tree w') = shape (tree w))"
  proof (cases "filter (\<lambda>f. endsWith f (js ''.js'')) entries")
    case Nil
    with assms rd show ?thesis by (auto simp: syncFile_cases tree_say)
  next
    case (Cons first others)
    then have "first \<in> set entries" by (rule filter_first_member)
    from readdir_child [OF assms(1) rd this]
    obtain n where pl: "plain_name first" and st: "stat (tree w) (path_join [d, first]) = Inr n"
      by blast
    obtain eo root' where cp: "copyFileSync (tree w) a (path_join [d, first]) = (eo, root')"
      by (cases "copyFileSync (tree w) a (path_join [d, first])")
    with assms(2) rd Cons have t: "tree w' = root'"
      by (auto simp: syncFile_cases tree_say split: option.splits)
    have len: "length (path_resolve (path_join [d, first])) = Suc (length (path_resolve d))"
      by (simp add: path_resolve_join [OF pl])
    from copyFileSync_kind(1,2) [OF cp st, of q] copyFileSync_kind(3) [OF cp st]
      copyFileSync_regular [OF cp st] assms(1)
    show ?thesis unfolding t len by auto
  qed
  then show "well_named (tree w')"
    and "kind (tree w') q = kind (tree w) q \<or> kind (tree w') q = None"
    and "length q \<le> length (path_resolve d) \<Longrightarrow> kind (tree w') q = kind (tree w) q"
    and "writable_file (tree w) a \<Longrightarrow> shape (tree w') = shape (tree w)"
    by simp_all
  show "\<exists>ev. console w' = console w @ [(Some a, ev)]"
    using assms(2)
    by (auto simp: syncFile_cases console_say split: sum.splits list.splits prod.splits option.splits)
  show "m' = (if ok then AList.update (tsFileName a) (path_basename d) m else m)"
    using assms(2)
    by (auto simp: syncFile_cases split: sum.splits list.splits prod.splits option.splits)
qed

section \<open>One step of the loop, and the loop\<close>

lemma sync_step_unmapped:
  "map_of m (tsFileName a) = None \<Longrightarrow> tsFileName a \<notin> set inherited_names \<Longrightarrow>
   sync_step a (m, c) w = Returned (m, c) (say (Some a) (NoMappingFor (tsFileName a)) w)"
  by (simp add: sync_step_def)

lemma sync_step_stale:
  "map_of m (tsFileName a) = Some v \<Longrightarrow> v \<noteq> [] \<Longrightarrow> \<not> existsSync (tree w) (targetDir_of v) \<Longrightarrow>
   sync_step a (m, c) w =
     Returned (AList.delete (tsFileName a) m, c) (say (Some a) (MappedDirNotFound v) w)"
  by (simp add: sync_step_def)

lemma sync_step_exists:
  "map_of m (tsFileName a) = Some v \<Longrightarrow> v \<noteq> [] \<Longrightarrow> existsSync (tree w) (targetDir_of v) \<Longrightarrow>
   sync_step a (m, c) w =
     (case syncFile a (targetDir_of v) m w of
        Returned (ok, m') w' \<Rightarrow> Returned (m', if ok then c + 1 else c) w'
      | Thrown e w' \<Rightarrow> Thrown e w'
      | NotFollowed \<Rightarrow> NotFollowed)"
  by (simp add: sync_step_def)

lemma sync_step_Returned:
  assumes "well_named (tree w)" and "sync_step a (m, c) w = Returned (m', c') w'"
  shows "well_named (tree w')"
    and "kind (tree w') q = kind (tree w) q \<or> kind (tree w') q = None"
    and "\<forall>kv \<in> set m. plain_name (snd kv) \<Longrightarrow> length q \<le> 3 \<Longrightarrow>
         kind (tree w') q = kind (tree w) q"
    and "\<exists>ev. console w' = console w @ [(Some a, ev)]"
    and "k \<noteq> tsFileName a \<Longrightarrow> map_of m' k = map_of m k"
    and "distinct (map fst m) \<Longrightarrow> distinct (map fst m')"
    and "writable_file (tree w) a \<Longrightarrow> shape (tree w') = shape (tree w)"
proof -
  consider (unmapped) "map_of m (tsFileName a) = None"
    | (empty) "map_of m (tsFileName a) = Some []"
    | (stale) v where "map_of m (tsFileName a) = Some v" "v \<noteq> []"
        "\<not> existsSync (tree w) (targetDir_of v)"
    | (sync) v where "map_of m (tsFileName a) = Some v" "v \<noteq> []"
        "existsSync (tree w) (targetDir_of v)"
    by (cases "map_of m (tsFileName a)") auto
  then have "well_named (tree w') \<and>
      (kind (tree w') q = kind (tree w) q \<or> kind (tree w') q = None) \<and>
      ((\<forall>kv \<in> set m. plain_name (snd kv)) \<and> length q \<le> 3 \<longrightarrow>
         kind (tree w') q = kind (tree w) q) \<and>
      (\<exists>ev. console w' = console w @ [(Some a, ev)]) \<and>
      (k \<noteq> tsFileName a \<longrightarrow> map_of m' k = map_of m k) \<and>
      (distinct (map fst m) \<longrightarrow> distinct (map fst m')) \<and>
      (writable_file (tree w) a \<longrightarrow> shape (tree w') = shape (tree w))"
  proof cases
    case unmapped
    with assms show ?thesis
      by (auto simp: sync_step_def tree_say console_say split: if_splits)
  next
    case empty
    with assms show ?thesis
      by (auto simp: sync_step_def tree_say console_say)
  next
    case stale
    with assms show ?thesis
      by (auto simp: sync_step_stale tree_say console_say delete_conv' distinct_delete)
  next
    case sync
    with assms(2) obtain ok where sf: "syncFile a (targetDir_of v) m w = Returned (ok, m') w'"
      by (auto simp: sync_step_exists split: outcome.splits)
    note f = syncFile_Returned [OF assms(1) sf]
    have "kind (tree w') q = kind (tree w) q"
      if "\<forall>kv \<in> set m. plain_name (snd kv)" and "length q \<le> 3"
    proof -
      from sync(1) have "(tsFileName a, v) \<in> set m" by (rule map_of_SomeD)
      with that(1) have "plain_name v" by auto
      then have "length (path_resolve (targetDir_of v)) = 3"
        by (simp add: path_resolve_targetDir_of)
      with f(3) [of q] that(2) show ?thesis by simp
    qed
    with f(1) f(2) [of q] f(4) f(5) f(6) show ?thesis
      by (auto simp: update_conv' distinct_update)
  qed
  then show "well_named (tree w')"
    and "kind (tree w') q = kind (tree w) q \<or> kind (tree w') q = None"
    and "\<forall>kv \<in> set m. plain_name (snd kv) \<Longrightarrow> length q \<le> 3 \<Longrightarrow>
         kind (tree w') q = kind (tree w) q"
    and "\<exists>ev. console w' = console w @ [(Some a, ev)]"
    and "k \<noteq> tsFileName a \<Longrightarrow> map_of m' k = map_of m k"
    and "distinct (map fst m) \<Longrightarrow> distinct (map fst m')"
    and "writable_file (tree w) a \<Longrightarrow> shape (tree w') = shape (tree w)"
    by simp_all
qed

lemma sync_loop_append:
  "sync_loop (xs @ ys) st w =
     (case sync_loop xs st w of
        Returned st' w' \<Rightarrow> sync_loop ys st' w'
      | Thrown e w' \<Rightarrow> Thrown e w'
      | NotFollowed \<Rightarrow> NotFollowed)"
  by (induction xs arbitrary: st w) (auto split: outcome.splits)

lemma sync_loop_Returned:
  assumes "well_named (tree w)" and "sync_loop cs (m, c) w = Returned (m', c') w'"
  shows "well_named (tree w') \<and>
         (\<forall>q. kind (tree w') q = kind (tree w) q \<or> kind (tree w') q = None) \<and>
         (\<exists>new. console w' = console w @ new \<and> map fst new = map Some cs) \<and>
         (k \<notin> tsFileName ` set cs \<longrightarrow> map_of m' k = map_of m k) \<and>
         (distinct (map fst m) \<longrightarrow> distinct (map fst m'))"
  using assms
proof (induction cs arbitrary: m c w)
  case Nil
  then show ?case by simp
next
  case (Cons a cs)
  from Cons.prems(2) obtain m1 c1 w1 where st: "sync_step a (m, c) w = Returned (m1, c1) w1"
    and lp: "sync_loop cs (m1, c1) w1 = Returned (m', c') w'"
    by (auto split: outcome.splits)
  note s = sync_step_Returned [OF Cons.prems(1) st]
  have kinds: "kind (tree w') q = kind (tree w) q \<or> kind (tree w') q = None" for q
    using Cons.IH [OF s(1) lp] s(2) [of q] by (metis (full_types))
  from Cons.IH [OF s(1) lp] s(4) s(5) [of k] s(6) kinds show ?case
    by auto
qed

lemma not_exists_kept:
  assumes "\<forall>q. kind root' q = kind root q \<or> kind root' q = None" and "\<not> existsSync root p"
  shows "\<not> existsSync root' p"
  using assms(1) [rule_format, of "path_resolve p"] assms(2)
  by (auto simp: existsSync_kind split: option.splits)

section \<open>The run, up to the loop and after it\<close>

lemma object_of_members_distinct_keys: "distinct (map fst (object_of_members ms))"
proof -
  have "distinct (map fst acc) \<Longrightarrow>
      distinct (map fst (foldl (\<lambda>obj (k, v). AList.update k v obj) acc ms))" for acc
    by (induction ms arbitrary: acc) (auto simp: distinct_update)
  from this [of "[]"] show ?thesis by (simp add: object_of_members_def)
qed

lemma parse_value_object_distinct:
  "parse_value n s = Some (JObject ms, r) \<Longrightarrow> distinct (map fst ms)"
proof (cases n)
  case 0
  then show "parse_value n s = Some (JObject ms, r) \<Longrightarrow> distinct (map fst ms)" by simp
next
  case (Suc k)
  assume "parse_value n s = Some (JObject ms, r)"
  then show "distinct (map fst ms)"
    unfolding Suc
    by (auto simp: object_of_members_distinct_keys split: list.splits if_splits)
qed

lemma members_of_table_keys: "members_of_table ms = Some t \<Longrightarrow> map fst t = map fst ms"
proof (induction ms arbitrary: t)
  case Nil
  then show ?case by simp
next
  case (Cons kv ms)
  obtain k v where kv: "kv = (k, v)" by (cases kv)
  from Cons.prems obtain s t' where "members_of_table ms = Some t'" and "t = (k, s) # t'"
    unfolding kv by (auto split: option.splits)
  with Cons.IH [of t'] show ?case unfolding kv by simp
qed

lemma persisted_distinct: "persisted w = Some t \<Longrightarrow> distinct (map fst t)"
proof -
  assume "persisted w = Some t"
  then obtain content v where "JSON_parse content = Some v" and tv: "table_of_json v = Some t"
    by (auto simp: persisted_def split: sum.splits Option.bind_splits)
  then obtain n s r where pv: "parse_value n s = Some (v, r)"
    by (auto simp: JSON_parse_def simp del: parse_value.simps split: option.splits if_splits)
  from tv obtain ms where v: "v = JObject ms" and mt: "members_of_table ms = Some t"
    by (cases v) auto
  from pv have "distinct (map fst ms)" unfolding v by (rule parse_value_object_distinct)
  with members_of_table_keys [OF mt] show ?thesis by simp
qed

lemma persisted_say: "persisted (say d m w) = persisted w"
  by (simp add: persisted_def tree_say)

lemma loadMapping_persisted:
  "persisted w = Some t \<Longrightarrow> \<exists>v. loadMapping w = Returned v w \<and> table_of_json v = Some t"
proof -
  assume "persisted w = Some t"
  then obtain content v where rd: "readFileSync (tree w) CONFIG_FILE = Inr content"
    and "JSON_parse content = Some v" and "table_of_json v = Some t"
    by (auto simp: persisted_def split: sum.splits Option.bind_splits)
  moreover from rd have "existsSync (tree w) CONFIG_FILE" by (rule readFileSync_exists)
  ultimately show ?thesis by (simp add: loadMapping_cases)
qed

lemma loaded_table_tree: "tree w' = tree w \<Longrightarrow> loaded_table w' = loaded_table w"
  by (simp add: loaded_table_def loadMapping_cases returned_def split: sum.splits option.splits)

lemma persisted_loaded: "persisted w = Some t \<Longrightarrow> loaded_table w = Some t"
proof -
  assume "persisted w = Some t"
  from loadMapping_persisted [OF this] show ?thesis
    by (auto simp: loaded_table_def returned_def)
qed

lemma loaded_table_cases:
  assumes "loaded_table w = Some t"
  shows "persisted w = Some t \<or> t = []"
  using assms
  by (auto simp: loaded_table_def loadMapping_cases returned_def persisted_def
      split: if_splits sum.splits option.splits)

lemma loaded_table_distinct: "loaded_table w = Some t \<Longrightarrow> distinct (map fst t)"
  using loaded_table_cases persisted_distinct by fastforce

lemma loaded_table_Returned:
  assumes "loaded_table w = Some t"
  shows "\<exists>v w1 new. loadMapping w = Returned v w1 \<and> table_of_json v = Some t \<and>
           tree w1 = tree w \<and> console w1 = console w @ new \<and> untagged new"
  using assms
  by (auto simp: loaded_table_def loadMapping_cases returned_def tree_say console_say untagged_def
      split: if_splits sum.splits option.splits)

lemma untagged_simps:
  "untagged []" "untagged ((None, x) # new) = untagged new"
  "untagged (xs @ ys) = (untagged xs \<and> untagged ys)"
  by (auto simp: untagged_def)

lemma getWebResourceDirs_Returned:
  "getWebResourceDirs w = Returned dirs w' \<Longrightarrow>
   tree w' = tree w \<and> (\<exists>new. console w' = console w @ new \<and> untagged new)"
  by (auto simp: getWebResourceDirs_def reading_def tree_say console_say untagged_def
      split: if_splits sum.splits)

lemma list_web_resources_Returned:
  "list_web_resources i dirs w = Returned u w' \<Longrightarrow>
   tree w' = tree w \<and> (\<exists>new. console w' = console w @ new \<and> untagged new)"
proof (induction dirs arbitrary: i w)
  case Nil
  then show ?case by (simp add: untagged_def)
next
  case (Cons d ds)
  from Cons.prems obtain inf where "getWebResourceInfo (tree w) d = Inr inf"
    and rest: "list_web_resources (i + 1) ds
        (say None (AvailableItem (i + 1) (or_else (Option.bind inf name) d)
           (or_else (Option.bind inf displayName) (js ''No display name''))) w) = Returned u w'"
    by (auto split: sum.splits)
  from Cons.IH [OF rest] show ?case
    by (auto simp: tree_say console_say untagged_def)
qed

lemma sync_and_save_Returned:
  "sync_and_save cs t w = Returned n w' \<Longrightarrow>
   \<exists>m' wl ws post. sync_loop cs (t, 0) w = Returned (m', n) wl \<and>
     saveMapping m' wl = Returned () ws \<and> tree w' = tree ws \<and>
     console w' = console ws @ post \<and> untagged post"
  by (auto simp: sync_and_save_def Let_def tree_say console_say untagged_def
      split: outcome.splits prod.splits if_splits)

lemma syncWebResources_Returned:
  assumes "loaded_table w = Some t" and "existsSync (tree w) DIST_DIR" and "found \<noteq> []"
    and "syncWebResources found w = Returned r w'"
  shows "\<exists>n wl pre. r = Some n \<and> tree wl = tree w \<and> console wl = console w @ pre \<and> untagged pre \<and>
           sync_and_save found t wl = Returned n w'"
proof -
  have "loaded_table (say None SyncStarted w) = Some t"
    using assms(1) loaded_table_tree [of "say None SyncStarted w" w] by (simp add: tree_say)
  from loaded_table_Returned [OF this] obtain v w1 new
    where lm: "loadMapping (say None SyncStarted w) = Returned v w1"
      and tv: "table_of_json v = Some t"
      and t1: "tree w1 = tree w"
      and c1: "console w1 = console w @ (None, SyncStarted) # new" "untagged new"
    by (auto simp: tree_say console_say)
  have gc: "getCompiledFiles found w1 = Returned found w1"
    using assms(2) t1 by (simp add: getCompiledFiles_def)
  from assms(4) have "\<exists>dirs w3. getWebResourceDirs w1 = Returned dirs w3"
    by (simp add: syncWebResources_def lm gc split: outcome.splits)
  then obtain dirs w3 where gd: "getWebResourceDirs w1 = Returned dirs w3"
    by blast
  from assms(3,4) have "\<exists>u w4. list_web_resources 0 dirs (say None AvailableHeader w3) = Returned u w4"
    by (simp add: syncWebResources_def lm gc gd split: outcome.splits)
  then obtain u w4
    where lw: "list_web_resources 0 dirs (say None AvailableHeader w3) = Returned u w4"
    by blast
  from assms(3,4) have "\<exists>n. sync_and_save found t (say None BlankLine w4) = Returned n w' \<and> r = Some n"
    by (simp add: syncWebResources_def lm gc gd lw tv split: outcome.splits)
  then obtain n where ss: "sync_and_save found t (say None BlankLine w4) = Returned n w'"
    and r: "r = Some n"
    by blast
  from getWebResourceDirs_Returned [OF gd] list_web_resources_Returned [OF lw] t1 c1
  have "tree (say None BlankLine w4) = tree w \<and>
      (\<exists>pre. console (say None BlankLine w4) = console w @ pre \<and> untagged pre)"
    by (auto simp: tree_say console_say untagged_def)
  with ss r show ?thesis by blast
qed

lemma persisted_tree: "tree w' = tree w \<Longrightarrow> persisted w' = persisted w"
  by (simp add: persisted_def)

lemma filter_tag_others:
  "map fst new = map Some cs \<Longrightarrow> a \<notin> set cs \<Longrightarrow> filter (\<lambda>l. fst l = Some a) new = []"
proof -
  assume m: "map fst new = map Some cs" and a: "a \<notin> set cs"
  have "fst l \<noteq> Some a" if "l \<in> set new" for l
  proof -
    from that have "fst l \<in> set (map fst new)" by simp
    with m have "fst l \<in> Some ` set cs" by simp
    with a show ?thesis by auto
  qed
  then show ?thesis by (simp add: filter_empty_conv)
qed

lemma filter_tag_untagged: "untagged new \<Longrightarrow> filter (\<lambda>l. fst l = Some a) new = []"
  by (auto simp: untagged_def filter_empty_conv)

lemma filter_singleton_split:
  assumes "filter P xs = [a]"
  shows "\<exists>pre post. xs = pre @ a # post \<and> (\<forall>x \<in> set pre. \<not> P x) \<and> (\<forall>x \<in> set post. \<not> P x)"
proof -
  from assms obtain us vs where "xs = us @ a # vs" and "\<forall>u \<in> set us. \<not> P u" and "[] = filter P vs"
    unfolding filter_eq_Cons_iff by blast
  moreover from this(3) have "filter P vs = []" by simp
  then have "\<forall>x \<in> set vs. \<not> P x" by (simp add: filter_empty_conv)
  ultimately show ?thesis by blast
qed



section \<open>A copy that fails\<close>

text \<open>
  C8, as amended. When the copy of a compiled file onto the script of its target folder
  fails, \<open>syncFile\<close> catches the error, reports it and returns \<open>false\<close>: it does not
  throw, the mapping and the count are unchanged, and the loop goes on with the
  artifacts that are left, whatever was done earlier in the run. Nothing is rolled
  back: every file other than the destination of the failed copy has the text that it
  had before the call, so a file copied earlier in the run to another destination
  stays copied. The destination itself is either untouched or removed. The one error
  that \<open>syncFile\<close> lets through comes from listing the target folder, before any copy.
\<close>

theorem copy_failure_is_caught:
  assumes "readdirSync (tree w) targetDir = Inr entries"
    and "filter (\<lambda>f. endsWith f (js ''.js'')) entries = first # others"
    and "copyFileSync (tree w) compiledFile (path_join [targetDir, first]) = (Some e, root')"
  shows "syncFile compiledFile targetDir mapping w =
           Returned (False, mapping)
             (say (Some compiledFile) (SyncFailed (path_basename compiledFile) e)
                (w\<lparr>tree := root'\<rparr>)) \<and>
         (\<forall>p c. path_resolve p \<noteq> path_resolve (path_join [targetDir, first]) \<and>
                readFileSync (tree w) p = Inr c \<longrightarrow> readFileSync root' p = Inr c) \<and>
         (root' = tree w \<or> \<not> existsSync root' (path_join [targetDir, first])) \<and>
         (sync_loop earlier st0 w0 = Returned (mapping, syncCount) w \<and>
          map_of mapping (tsFileName compiledFile) = Some webResourceDir \<and> webResourceDir \<noteq> [] \<and>
          targetDir = targetDir_of webResourceDir \<and> existsSync (tree w) targetDir \<longrightarrow>
            sync_loop (earlier @ compiledFile # rest) st0 w0 =
              sync_loop rest (mapping, syncCount)
                (say (Some compiledFile) (SyncFailed (path_basename compiledFile) e)
                   (w\<lparr>tree := root'\<rparr>))) \<and>
         (syncFile compiledFile' targetDir' mapping' u = Thrown e' u' \<longrightarrow>
            readdirSync (tree u) targetDir' = Inl e' \<and> u' = u)"
proof (intro conjI allI impI)
  show sf: "syncFile compiledFile targetDir mapping w =
      Returned (False, mapping)
        (say (Some compiledFile) (SyncFailed (path_basename compiledFile) e) (w\<lparr>tree := root'\<rparr>))"
    using assms by (simp add: syncFile_cases)
  show "root' = tree w \<or> \<not> existsSync root' (path_join [targetDir, first])"
    using assms(3) by (rule copyFileSync_failed)
  show "readFileSync root' p = Inr c"
    if "path_resolve p \<noteq> path_resolve (path_join [targetDir, first]) \<and>
        readFileSync (tree w) p = Inr c" for p c
    using readFileSync_frame [OF assms(3)] that by blast
  show "sync_loop (earlier @ compiledFile # rest) st0 w0 =
      sync_loop rest (mapping, syncCount)
        (say (Some compiledFile) (SyncFailed (path_basename compiledFile) e) (w\<lparr>tree := root'\<rparr>))"
    if "sync_loop earlier st0 w0 = Returned (mapping, syncCount) w \<and>
        map_of mapping (tsFileName compiledFile) = Some webResourceDir \<and> webResourceDir \<noteq> [] \<and>
        targetDir = targetDir_of webResourceDir \<and> existsSync (tree w) targetDir"
  proof -
    from that have lp: "sync_loop earlier st0 w0 = Returned (mapping, syncCount) w"
      and mp: "map_of mapping (tsFileName compiledFile) = Some webResourceDir"
      and ne: "webResourceDir \<noteq> []" and td: "targetDir = targetDir_of webResourceDir"
      and ex: "existsSync (tree w) (targetDir_of webResourceDir)"
      by auto
    have "sync_step compiledFile (mapping, syncCount) w =
        Returned (mapping, syncCount)
          (say (Some compiledFile) (SyncFailed (path_basename compiledFile) e) (w\<lparr>tree := root'\<rparr>))"
      using sf unfolding td by (simp add: sync_step_exists [OF mp ne ex])
    then show ?thesis by (simp add: sync_loop_append lp)
  qed
  show "readdirSync (tree u) targetDir' = Inl e'" and "u' = u"
    if "syncFile compiledFile' targetDir' mapping' u = Thrown e' u'"
    using syncFile_Thrown [OF that] by simp_all
qed

theorem copy_failure_is_caught_witness:
  "sync_loop [js ''dist/other.js''] (apart_table, 0) \<lparr>tree = bundle_root apart_table, console = []\<rparr> =
     Returned (apart_table, 1)
       \<lparr>tree = bundle_copied,
        console = [(Some (js ''dist/other.js''), Synced (js ''other.js'') (js ''co_other.js''))]\<rparr> \<and>
   readFileSync bundle_copied (js ''src/webresources/folder-456/co_other.js'') = Inr (js ''other();'') \<and>
   copyFileSync bundle_copied (js ''dist/bundle.js'')
     (path_join [targetDir_of (js ''folder-123''), js ''co_example.js'']) =
     (Some (SystemError EISDIR), bundle_failed) \<and>
   sync_loop bundle_found (apart_table, 0) \<lparr>tree = bundle_root apart_table, console = []\<rparr> =
     Returned (apart_table, 1)
       \<lparr>tree = bundle_failed,
        console = [(Some (js ''dist/other.js''), Synced (js ''other.js'') (js ''co_other.js'')),
                   (Some (js ''dist/bundle.js''), SyncFailed (js ''bundle.js'') (SystemError EISDIR))]\<rparr> \<and>
   readFileSync bundle_failed (js ''src/webresources/folder-456/co_other.js'') = Inr (js ''other();'') \<and>
   \<not> existsSync bundle_failed (path_join [targetDir_of (js ''folder-123''), js ''co_example.js'']) \<and>
   syncFile (js ''dist/other.js'') (targetDir_of (js ''notes.txt'')) abort_table abort_world =
     Thrown (SystemError ENOTDIR) abort_world \<and>
   readdirSync (tree abort_world) (targetDir_of (js ''notes.txt'')) = Inl (SystemError ENOTDIR)"
proof -
  define w where "w = \<lparr>tree = bundle_copied,
      console = [(Some (js ''dist/other.js''), Synced (js ''other.js'') (js ''co_other.js''))]\<rparr>"
  have lp: "sync_loop [js ''dist/other.js''] (apart_table, 0)
      \<lparr>tree = bundle_root apart_table, console = []\<rparr> = Returned (apart_table, 1) w"
    unfolding w_def by code_simp
  have rd: "readdirSync (tree w) (targetDir_of (js ''folder-123'')) = Inr [js ''co_example.js'']"
    unfolding w_def by code_simp
  have fl: "filter (\<lambda>f. endsWith f (js ''.js'')) [js ''co_example.js''] = js ''co_example.js'' # []"
    by code_simp
  have cp: "copyFileSync (tree w) (js ''dist/bundle.js'')
      (path_join [targetDir_of (js ''folder-123''), js ''co_example.js'']) =
      (Some (SystemError EISDIR), bundle_failed)"
    unfolding w_def by code_simp
  have mp: "map_of apart_table (tsFileName (js ''dist/bundle.js'')) = Some (js ''folder-123'')"
    by code_simp
  have ne: "js ''folder-123'' \<noteq> []"
    by code_simp
  have ex: "existsSync (tree w) (targetDir_of (js ''folder-123''))"
    unfolding w_def by code_simp
  have bn: "path_basename (js ''dist/bundle.js'') = js ''bundle.js''"
    by code_simp
  have other: "path_resolve (js ''src/webresources/folder-456/co_other.js'') \<noteq>
      path_resolve (path_join [targetDir_of (js ''folder-123''), js ''co_example.js''])"
    by code_simp
  have copied: "readFileSync (tree w) (js ''src/webresources/folder-456/co_other.js'') = Inr (js ''other();'')"
    unfolding w_def by code_simp
  have changed: "bundle_failed \<noteq> tree w"
    unfolding w_def by code_simp
  note th = copy_failure_is_caught [OF rd fl cp, of apart_table "[js ''dist/other.js'']"
      "(apart_table, 0)" "\<lparr>tree = bundle_root apart_table, console = []\<rparr>" 1 "js ''folder-123''" "[]"]
  from th have kept: "readFileSync bundle_failed (js ''src/webresources/folder-456/co_other.js'') =
      Inr (js ''other();'')"
    using other copied by blast
  from th changed have removed:
    "\<not> existsSync bundle_failed (path_join [targetDir_of (js ''folder-123''), js ''co_example.js''])"
    by blast
  from th lp mp ne ex have run: "sync_loop ([js ''dist/other.js''] @ js ''dist/bundle.js'' # []) (apart_table, 0)
      \<lparr>tree = bundle_root apart_table, console = []\<rparr> =
      sync_loop [] (apart_table, 1)
        (say (Some (js ''dist/bundle.js'')) (SyncFailed (path_basename (js ''dist/bundle.js'')) (SystemError EISDIR))
           (w\<lparr>tree := bundle_failed\<rparr>))"
    by blast
  have thrown: "syncFile (js ''dist/other.js'') (targetDir_of (js ''notes.txt'')) abort_table abort_world =
      Thrown (SystemError ENOTDIR) abort_world"
    by code_simp
  from th thrown
  have listing: "readdirSync (tree abort_world) (targetDir_of (js ''notes.txt'')) = Inl (SystemError ENOTDIR)"
    by blast
  have found: "bundle_found = [js ''dist/other.js''] @ js ''dist/bundle.js'' # []"
    by (simp add: bundle_found_def)
  show ?thesis
    using lp copied cp run kept removed thrown listing
    unfolding found by (simp add: w_def say_def bn)
qed

text \<open>
  C8 as stated fails: a copy that fails once its destination is open removes the
  destination, also when an earlier artifact of the same run was copied onto it. Here
  both artifacts are mapped to \<open>folder-456\<close>. The file \<open>dist/other.js\<close> is copied onto
  \<open>co_other.js\<close> and counted; the copy of the directory \<open>dist/bundle.js\<close> then fails and is
  caught, and when the run ends \<open>co_other.js\<close> does not exist.
\<close>

theorem earlier_copy_removed_counterexample:
  "returned (syncWebResources bundle_found \<lparr>tree = bundle_root shared_table, console = []\<rparr>) =
     Some (Some 1) \<and>
   filter (\<lambda>l. fst l \<noteq> None)
     (console (world_after
        (syncWebResources bundle_found \<lparr>tree = bundle_root shared_table, console = []\<rparr>))) =
     [(Some (js ''dist/other.js''), Synced (js ''other.js'') (js ''co_other.js'')),
      (Some (js ''dist/bundle.js''), SyncFailed (js ''bundle.js'') (SystemError EISDIR))] \<and>
   readFileSync
     (tree (world_after
        (syncWebResources bundle_found \<lparr>tree = bundle_root shared_table, console = []\<rparr>)))
     (js ''src/webresources/folder-456/co_other.js'') = Inl (SystemError ENOENT)"
  by code_simp

section \<open>What a sync writes\<close>




section \<open>The example runs, evaluated\<close>

lemma locked_run:
  "syncWebResources locked_found locked_world =
     Returned (Some 1) (world_after (syncWebResources locked_found locked_world))"
  by code_simp

lemma locked_persisted:
  "persisted (world_after (syncWebResources locked_found locked_world)) =
     Some [(js ''widgetForm.ts'', js ''folder-123''), (js ''other.ts'', js ''folder-456'')]"
  by code_simp

lemma locked_facts:
  "well_named (tree locked_world)"
  "loaded_table locked_world = Some locked_table"
  "existsSync (tree locked_world) DIST_DIR"
  "locked_found \<noteq> []"
  "\<forall>kv \<in> set locked_table. plain_name (snd kv)"
  "console locked_world = []"
  by code_simp+

lemma example_run:
  "syncWebResources [js ''dist/widgetForm.js''] example_world =
     Returned (Some 1) (world_after (syncWebResources [js ''dist/widgetForm.js''] example_world))"
  by code_simp

lemma example_facts:
  "well_named (tree example_world)"
  "loaded_table example_world = Some example_table"
  "\<forall>kv \<in> set example_table. plain_name (snd kv)"
  "\<forall>a \<in> set [js ''dist/widgetForm.js'']. endsWith a (js ''.js'')"
  "\<forall>a \<in> set [js ''dist/widgetForm.js'']. writable_file (tree example_world) a"
  by code_simp+


section \<open>Pruning a stale entry\<close>

text \<open>
  C5, as amended. Let the loaded table have an entry whose key is the key of exactly one
  discovered artifact and whose value is not empty and names a folder that does not
  exist. A run that reaches its end prints, for that artifact, exactly one line, the
  warning that the mapped folder is not found (so no copy is attempted and none is
  reported); the table that the run persists has no entry for the key; and an entry
  whose key is the key of no discovered artifact is persisted as it was loaded.
\<close>

theorem stale_entry_is_pruned:
  assumes wn: "well_named (tree w)"
    and per: "loaded_table w = Some t"
    and dist: "existsSync (tree w) DIST_DIR"
    and one: "filter (\<lambda>b. tsFileName b = tsFileName compiledFile) found = [compiledFile]"
    and entry: "map_of t (tsFileName compiledFile) = Some webResourceDir"
    and named: "webResourceDir \<noteq> []"
    and gone: "\<not> existsSync (tree w) (targetDir_of webResourceDir)"
    and run: "syncWebResources found w = Returned r w'"
  shows "(\<exists>new. console w' = console w @ new \<and>
            filter (\<lambda>l. fst l = Some compiledFile) new =
              [(Some compiledFile, MappedDirNotFound webResourceDir)]) \<and>
         (\<exists>t'. persisted w' = Some t' \<and> map_of t' (tsFileName compiledFile) = None \<and>
            (\<forall>k. k \<notin> tsFileName ` set found \<longrightarrow> map_of t' k = map_of t k))"
proof -
  define k where "k = tsFileName compiledFile"
  from filter_singleton_split [OF one] obtain pre post
    where found: "found = pre @ compiledFile # post"
      and pre: "\<forall>b \<in> set pre. tsFileName b \<noteq> k"
      and post: "\<forall>b \<in> set post. tsFileName b \<noteq> k"
    unfolding k_def by blast
  from found have ne: "found \<noteq> []" by simp
  from syncWebResources_Returned [OF per dist ne run] obtain n wl pc
    where wl: "tree wl = tree w" "console wl = console w @ pc" "untagged pc"
      and ss: "sync_and_save found t wl = Returned n w'"
    by blast
  from sync_and_save_Returned [OF ss] obtain m' wl' ws qc
    where lp: "sync_loop found (t, 0) wl = Returned (m', n) wl'"
      and sv: "saveMapping m' wl' = Returned () ws"
      and ws: "tree w' = tree ws" "console w' = console ws @ qc" "untagged qc"
    by blast
  from lp obtain m1 c1 w1
    where l1: "sync_loop pre (t, 0) wl = Returned (m1, c1) w1"
      and l2: "sync_loop (compiledFile # post) (m1, c1) w1 = Returned (m', n) wl'"
    unfolding found sync_loop_append by (auto split: outcome.splits)
  have wnl: "well_named (tree wl)" using wn wl(1) by simp
  have kpre: "k \<notin> tsFileName ` set pre" using pre by auto
  from sync_loop_Returned [OF wnl l1, of k] kpre obtain n1
    where wn1: "well_named (tree w1)"
      and s1: "\<forall>q. kind (tree w1) q = kind (tree wl) q \<or> kind (tree w1) q = None"
      and c1: "console w1 = console wl @ n1" "map fst n1 = map Some pre"
      and m1: "map_of m1 k = map_of t k"
      and d1: "distinct (map fst t) \<longrightarrow> distinct (map fst m1)"
    by auto
  have gone1: "\<not> existsSync (tree w1) (targetDir_of webResourceDir)"
    using not_exists_kept [OF s1] gone wl(1) by simp
  have e1: "map_of m1 (tsFileName compiledFile) = Some webResourceDir"
    using m1 entry by (simp add: k_def)
  define w2 where "w2 = say (Some compiledFile) (MappedDirNotFound webResourceDir) w1"
  have st: "sync_step compiledFile (m1, c1) w1 = Returned (AList.delete k m1, c1) w2"
    unfolding w2_def k_def by (rule sync_step_stale [OF e1 named gone1])
  with l2 have l3: "sync_loop post (AList.delete k m1, c1) w2 = Returned (m', n) wl'"
    by simp
  have wn2: "well_named (tree w2)" using wn1 by (simp add: w2_def tree_say)
  have kpost: "k \<notin> tsFileName ` set post" using post by auto
  from sync_loop_Returned [OF wn2 l3, of k] kpost obtain n3
    where c3: "console wl' = console w2 @ n3" "map fst n3 = map Some post"
      and m3: "map_of m' k = map_of (AList.delete k m1) k"
      and d3: "distinct (map fst (AList.delete k m1)) \<longrightarrow> distinct (map fst m')"
    by auto
  have dm: "distinct (map fst m')"
    using loaded_table_distinct [OF per] d1 d3 by (simp add: distinct_delete)
  from saved_table_is_loaded [OF dm sv] have "persisted ws = Some m'" by simp
  then have p: "persisted w' = Some m'" using persisted_tree [OF ws(1)] by simp
  have none: "map_of m' (tsFileName compiledFile) = None"
    using m3 by (simp add: k_def delete_conv')
  have a_pre: "compiledFile \<notin> set pre" using pre k_def by auto
  have a_post: "compiledFile \<notin> set post" using post k_def by auto
  have cs: "console ws = console wl'" using saveMapping_Returned [OF sv] by simp
  have "console w' = console w @ (pc @ n1 @ [(Some compiledFile, MappedDirNotFound webResourceDir)] @ n3 @ qc)"
    by (simp add: ws(2) cs c3(1) w2_def console_say c1(1) wl(2))
  moreover have "filter (\<lambda>l. fst l = Some compiledFile)
      (pc @ n1 @ [(Some compiledFile, MappedDirNotFound webResourceDir)] @ n3 @ qc) =
      [(Some compiledFile, MappedDirNotFound webResourceDir)]"
    by (simp add: filter_tag_untagged [OF wl(3)] filter_tag_untagged [OF ws(3)]
        filter_tag_others [OF c1(2) a_pre] filter_tag_others [OF c3(2) a_post])
  moreover have "map_of m' x = map_of t x" if "x \<notin> tsFileName ` set found" for x
    using sync_loop_Returned [OF wnl lp, of x] that by simp
  ultimately show ?thesis using p none by blast
qed


theorem stale_entry_is_pruned_witness:
  "filter (\<lambda>l. fst l = Some (js ''dist/gone.js''))
     (console (world_after (syncWebResources locked_found locked_world))) =
     [(Some (js ''dist/gone.js''), MappedDirNotFound (js ''folder-999''))] \<and>
   persisted (world_after (syncWebResources locked_found locked_world)) =
     Some [(js ''widgetForm.ts'', js ''folder-123''), (js ''other.ts'', js ''folder-456'')] \<and>
   map_of locked_table (js ''gone.ts'') = Some (js ''folder-999'') \<and>
   \<not> existsSync (tree locked_world) (targetDir_of (js ''folder-999''))"
proof -
  have one: "filter (\<lambda>b. tsFileName b = tsFileName (js ''dist/gone.js'')) locked_found = [js ''dist/gone.js'']"
    by code_simp
  have key: "tsFileName (js ''dist/gone.js'') = js ''gone.ts''"
    by code_simp
  have entry: "map_of locked_table (tsFileName (js ''dist/gone.js'')) = Some (js ''folder-999'')"
    by code_simp
  have named: "js ''folder-999'' \<noteq> []"
    by code_simp
  have gone: "\<not> existsSync (tree locked_world) (targetDir_of (js ''folder-999''))"
    by code_simp
  from stale_entry_is_pruned [OF locked_facts(1,2,3) one entry named gone locked_run]
  show ?thesis
    using locked_persisted entry gone locked_facts(6) unfolding key by auto
qed

text \<open>
  C5 as stated fails where the run does not reach its end. Here the entry \<open>gone.ts\<close>
  names a folder that does not exist, and the entry of the next artifact names a plain
  file: \<open>readdirSync\<close> throws outside the \<open>try\<close> of \<open>syncFile\<close>, the run ends there, and
  the mapping file still holds the entry \<open>gone.ts\<close>.
\<close>

theorem stale_entry_kept_counterexample:
  "map_of abort_table (tsFileName (js ''dist/gone.js'')) = Some (js ''folder-999'') \<and>
   \<not> existsSync (tree abort_world) (targetDir_of (js ''folder-999'')) \<and>
   loaded_table abort_world = Some abort_table \<and>
   syncWebResources abort_found abort_world =
     Thrown (SystemError ENOTDIR) (world_after (syncWebResources abort_found abort_world)) \<and>
   persisted (world_after (syncWebResources abort_found abort_world)) = Some abort_table \<and>
   map_of abort_table (js ''gone.ts'') = Some (js ''folder-999'')"
  by code_simp

section \<open>The table and the count of a run, in closed form\<close>

lemma map_of_filter_distinct:
  "distinct (map fst m) \<Longrightarrow>
   map_of (filter P m) k =
     (case map_of m k of None \<Rightarrow> None | Some v \<Rightarrow> if P (k, v) then Some v else None)"
proof (induction m)
  case Nil
  show ?case by simp
next
  case (Cons kv m)
  obtain k' v' where kv: "kv = (k', v')" by (cases kv)
  from Cons.prems have fresh: "k' \<notin> fst ` set m" and d: "distinct (map fst m)"
    by (auto simp: kv)
  from fresh have none: "map_of m k' = None" by (simp add: map_of_eq_None_iff)
  show ?case
    using Cons.IH [OF d] none by (auto simp: kv split: option.splits)
qed

lemma targetDir_of_plain: "plain_name v \<Longrightarrow> targetDir_of v = js ''src/webresources/'' @ v"
proof -
  assume p: "plain_name v"
  then have v: "v \<noteq> []" "slash \<notin> set v" "clean v" by (simp_all add: plain_name_def clean_def)
  define x where "x = js ''./src/webresources'' @ slash # v"
  have sp: "split_on slash x = [js ''.'', js ''src'', js ''webresources'', v]"
    unfolding x_def by (simp add: split_on_append split_on_free [OF v(2)]) (simp add: js_def slash_def)
  have hd: "hd x \<noteq> slash" by (simp add: x_def js_def slash_def)
  have ns: "norm_segs (hd x \<noteq> slash) [] (split_on slash x) = [js ''src'', js ''webresources'', v]"
    using v(3) unfolding sp by (simp add: hd clean_def) (simp add: js_def)
  have lx: "last x \<noteq> slash" using v by (simp add: x_def) (metis last_in_set)
  have "path_normalize x = join_with [slash] [js ''src'', js ''webresources'', v]"
    using path_normalize_shape [of x "[js ''src'', js ''webresources'', v]"] ns hd lx
    by (simp add: x_def)
  then have "path_normalize x = js ''src/webresources/'' @ v"
    by (simp add: js_def slash_def)
  then show ?thesis
    using v(1) by (simp add: targetDir_of_def path_join_two WEBRESOURCES_DIR_def x_def js_def)
qed

lemma takeWhile_stop: "\<forall>x \<in> set xs. P x \<Longrightarrow> \<not> P y \<Longrightarrow> takeWhile P (xs @ y # ys) = xs"
  by (induction xs) auto

lemma path_basename_suffix:
  "v \<noteq> [] \<Longrightarrow> slash \<notin> set v \<Longrightarrow> path_basename (pre @ slash # v) = v"
proof -
  assume v: "v \<noteq> []" "slash \<notin> set v"
  then have "hd (rev v) \<noteq> slash" by (metis hd_rev last_in_set)
  then have d: "dropWhile (\<lambda>c. c = slash) (rev v @ slash # rev pre) = rev v @ slash # rev pre"
    using v(1) by (cases "rev v") auto
  have t: "takeWhile (\<lambda>c. c \<noteq> slash) (rev v @ slash # rev pre) = rev v"
    using v(2) by (intro takeWhile_stop) auto
  show ?thesis by (simp add: path_basename_def d t)
qed

lemma basename_targetDir_of: "plain_name v \<Longrightarrow> path_basename (targetDir_of v) = v"
proof -
  assume p: "plain_name v"
  have "js ''src/webresources/'' @ v = js ''src/webresources'' @ slash # v"
    by (simp add: js_def slash_def)
  then show ?thesis
    using p path_basename_suffix [of v "js ''src/webresources''"]
    by (simp add: targetDir_of_plain plain_name_def)
qed

lemma syncFile_simulated:
  assumes wn: "well_named (tree w)" and sh: "shape (tree u) = shape (tree w)"
    and reg: "writable_file (tree w) a"
    and run: "syncFile a d m1 w = Returned (ok, m1') w'"
  shows "\<exists>u'. syncFile a d m2 u =
            Returned (ok, if ok then AList.update (tsFileName a) (path_basename d) m2 else m2) u' \<and>
          shape (tree u') = shape (tree u)"
proof -
  from run obtain entries where rd: "readdirSync (tree w) d = Inr entries"
    by (auto simp: syncFile_cases split: sum.splits)
  then have rdu: "readdirSync (tree u) d = Inr entries"
    using readdirSync_same_shape [OF sh] by simp
  have wnu: "well_named (tree u)" using well_named_same_shape [OF sh] wn by simp
  have regu: "writable_file (tree u) a" using writable_file_same_shape [OF sh] reg by simp
  show ?thesis
  proof (cases "filter (\<lambda>f. endsWith f (js ''.js'')) entries")
    case Nil
    with run rd rdu show ?thesis by (auto simp: syncFile_cases tree_say)
  next
    case (Cons first others)
    then have "first \<in> set entries" by (rule filter_first_member)
    from readdir_child(2) [OF wnu rdu this]
    obtain n where st: "stat (tree u) (path_join [d, first]) = Inr n" by blast
    obtain eo root' where cw: "copyFileSync (tree w) a (path_join [d, first]) = (eo, root')"
      by (cases "copyFileSync (tree w) a (path_join [d, first])")
    obtain eo' root'' where cu: "copyFileSync (tree u) a (path_join [d, first]) = (eo', root'')"
      by (cases "copyFileSync (tree u) a (path_join [d, first])")
    from copyFileSync_same_shape [OF sh, of a "path_join [d, first]"]
    have same: "(eo' = None) = (eo = None)" by (simp add: cw cu)
    from copyFileSync_regular [OF cu st regu] have shu: "shape root'' = shape (tree u)" .
    show ?thesis
    proof (cases eo)
      case None
      with same have "eo' = None" by simp
      with run rd rdu Cons cw cu None shu show ?thesis by (auto simp: syncFile_cases tree_say)
    next
      case (Some e)
      with same obtain e' where "eo' = Some e'" by (cases eo') auto
      with run rd rdu Cons cw cu Some shu show ?thesis by (auto simp: syncFile_cases tree_say)
    qed
  qed
qed

lemma stale_Cons:
  "stale (a # cs) root kv \<longleftrightarrow>
   (fst kv = tsFileName a \<and> \<not> existsSync root (targetDir_of (snd kv))) \<or> stale cs root kv"
  by (auto simp: stale_def)

lemma stale_Nil: "\<not> stale [] root kv"
  by (simp add: stale_def)

lemma stale_same_kind:
  assumes "\<forall>q. length q \<le> 3 \<longrightarrow> kind r' q = kind r q" and "plain_name (snd kv)"
  shows "stale cs r' kv = stale cs r kv"
proof -
  have "length (path_resolve (targetDir_of (snd kv))) = 3"
    using assms(2) by (simp add: path_resolve_targetDir_of)
  with assms(1)
  have "kind r' (path_resolve (targetDir_of (snd kv))) = kind r (path_resolve (targetDir_of (snd kv)))"
    by simp
  then show ?thesis by (simp add: stale_def existsSync_kind)
qed

lemma unique_entry:
  "distinct (map fst m) \<Longrightarrow> map_of m k = Some v \<Longrightarrow> kv \<in> set m \<Longrightarrow> fst kv = k \<Longrightarrow> kv = (k, v)"
proof -
  assume d: "distinct (map fst m)" and mv: "map_of m k = Some v" and i: "kv \<in> set m" and f: "fst kv = k"
  from i f have "(k, snd kv) \<in> set m" by (metis prod.collapse)
  from map_of_is_SomeI [OF d this] mv have "snd kv = v" by simp
  with f show ?thesis by (metis prod.collapse)
qed

lemma delete_as_filter: "AList.delete k m = filter (\<lambda>kv. fst kv \<noteq> k) m"
  by (induction m) auto

text \<open>
  The loop in closed form. The table that it leaves is the table that it was given
  without the stale entries, whatever the copies did: a copy changes nothing above the
  scripts of a target folder. Where every discovered path names a regular file that may
  be written, the loop keeps the shape of the tree, and it runs in the same way on the
  table that it leaves, in any world of the same shape.
\<close>

lemma sync_loop_prunes:
  assumes "well_named (tree w)" and "shape (tree u) = shape (tree w)"
    and "distinct (map fst m)" and "\<forall>kv \<in> set m. plain_name (snd kv)"
    and "sync_loop cs (m, c) w = Returned (m', c') w'"
  shows "m' = filter (\<lambda>kv. \<not> stale cs (tree w) kv) m \<and>
         (\<forall>q. length q \<le> 3 \<longrightarrow> kind (tree w') q = kind (tree w) q) \<and>
         ((\<forall>a \<in> set cs. writable_file (tree w) a) \<longrightarrow>
            shape (tree w') = shape (tree w) \<and>
            ((\<forall>a \<in> set cs. tsFileName a \<notin> set inherited_names) \<longrightarrow>
               (\<exists>u'. sync_loop cs (m', c) u = Returned (m', c') u' \<and> shape (tree u') = shape (tree u))))"
  using assms
proof (induction cs arbitrary: m c w u)
  case Nil
  then show ?case by (simp add: stale_Nil)
next
  case (Cons a cs)
  define k where "k = tsFileName a"
  define F where "F = filter (\<lambda>kv. \<not> stale (a # cs) (tree w) kv) m"
  note wn = Cons.prems(1) and sh = Cons.prems(2) and dm = Cons.prems(3) and pl = Cons.prems(4)
  from Cons.prems(5) obtain m1 c1 w1 where st: "sync_step a (m, c) w = Returned (m1, c1) w1"
    and lp: "sync_loop cs (m1, c1) w1 = Returned (m', c') w'"
    by (auto split: outcome.splits)
  note s = sync_step_Returned [OF wn st]
  have wn1: "well_named (tree w1)" using s(1) .
  have k1: "\<forall>q. length q \<le> 3 \<longrightarrow> kind (tree w1) q = kind (tree w) q"
    using s(3) [OF pl] by simp
  have sk: "stale cs (tree w1) kv = stale cs (tree w) kv" if "kv \<in> set m" for kv
    using stale_same_kind [OF k1] pl that by blast
  have d1: "distinct (map fst m1)" using s(6) dm by simp
  have mapF: "map_of F x = (case map_of m x of None \<Rightarrow> None
      | Some v \<Rightarrow> if \<not> stale (a # cs) (tree w) (x, v) then Some v else None)" for x
    unfolding F_def by (rule map_of_filter_distinct [OF dm])
  have facts: "(\<forall>kv \<in> set m1. plain_name (snd kv)) \<and>
      filter (\<lambda>kv. \<not> stale cs (tree w1) kv) m1 = F \<and>
      (k \<notin> set inherited_names \<and> writable_file (tree w) a \<longrightarrow>
         (\<exists>u1. sync_step a (F, c) u = Returned (F, c1) u1 \<and> shape (tree u1) = shape (tree u)))"
  proof (cases "map_of m k")
    case None
    with st have m1: "m1 = m" and c1: "c1 = c" and ni: "k \<notin> set inherited_names"
      by (auto simp: sync_step_def k_def split: if_splits)
    have nk: "fst kv \<noteq> k" if "kv \<in> set m" for kv
      using None that by (auto simp: map_of_eq_None_iff)
    have "filter (\<lambda>kv. \<not> stale cs (tree w1) kv) m = F"
      unfolding F_def
    proof (rule filter_cong [OF refl])
      fix kv assume i: "kv \<in> set m"
      show "(\<not> stale cs (tree w1) kv) = (\<not> stale (a # cs) (tree w) kv)"
        using nk [OF i] by (simp add: stale_Cons sk [OF i] k_def)
    qed
    moreover have "map_of F (tsFileName a) = None" using None by (simp add: mapF k_def)
    then have "sync_step a (F, c) u = Returned (F, c) (say (Some a) (NoMappingFor (tsFileName a)) u)"
      using ni by (simp add: sync_step_unmapped k_def)
    ultimately show ?thesis using pl m1 c1 by (auto simp: tree_say)
  next
    case (Some v)
    then have "(k, v) \<in> set m" by (rule map_of_SomeD)
    with pl have pv: "plain_name v" by auto
    then have vne: "v \<noteq> []" by (simp add: plain_name_def)
    have uniq: "kv = (k, v)" if "kv \<in> set m" "fst kv = k" for kv
      using unique_entry [OF dm Some that] .
    show ?thesis
    proof (cases "existsSync (tree w) (targetDir_of v)")
      case False
      from st Some vne False have m1: "m1 = AList.delete k m" and c1: "c1 = c"
        by (auto simp: sync_step_def k_def)
      have "filter (\<lambda>kv. \<not> stale cs (tree w1) kv) (filter (\<lambda>kv. fst kv \<noteq> k) m) = F"
        unfolding F_def filter_filter
      proof (rule filter_cong [OF refl])
        fix kv assume i: "kv \<in> set m"
        show "(fst kv \<noteq> k \<and> \<not> stale cs (tree w1) kv) = (\<not> stale (a # cs) (tree w) kv)"
        proof (cases "fst kv = k")
          case True
          with uniq [OF i] False show ?thesis by (simp add: stale_Cons k_def)
        next
          case ne: False
          then show ?thesis by (simp add: stale_Cons sk [OF i] k_def)
        qed
      qed
      then have A: "filter (\<lambda>kv. \<not> stale cs (tree w1) kv) m1 = F"
        by (simp add: m1 delete_as_filter)
      have "stale (a # cs) (tree w) (k, v)" using False by (simp add: stale_Cons k_def)
      then have "map_of F (tsFileName a) = None" using Some by (simp add: mapF k_def)
      then have B: "k \<notin> set inherited_names \<longrightarrow>
          sync_step a (F, c) u = Returned (F, c) (say (Some a) (NoMappingFor (tsFileName a)) u)"
        by (simp add: sync_step_unmapped k_def)
      have "\<forall>kv \<in> set m1. plain_name (snd kv)"
        using pl by (auto simp: m1 delete_as_filter)
      with A B c1 show ?thesis by (auto simp: tree_say)
    next
      case True
      from st Some vne True obtain ok
        where sf: "syncFile a (targetDir_of v) m w = Returned (ok, m1) w1"
          and c1: "c1 = (if ok then c + 1 else c)"
        by (auto simp: sync_step_exists k_def split: outcome.splits prod.splits)
      have bn: "path_basename (targetDir_of v) = v" using pv by (rule basename_targetDir_of)
      from syncFile_Returned(5) [OF wn sf] have m1: "m1 = m"
        using Some by (auto simp: bn update_triv k_def)
      have A: "filter (\<lambda>kv. \<not> stale cs (tree w1) kv) m1 = F"
        unfolding F_def m1
      proof (rule filter_cong [OF refl])
        fix kv assume i: "kv \<in> set m"
        show "(\<not> stale cs (tree w1) kv) = (\<not> stale (a # cs) (tree w) kv)"
        proof (cases "fst kv = k")
          case eq: True
          from sk [OF i] uniq [OF i eq] True show ?thesis
            by (simp add: stale_Cons k_def)
        next
          case False
          then show ?thesis by (simp add: stale_Cons sk [OF i] k_def)
        qed
      qed
      have "\<not> stale (a # cs) (tree w) (k, v)"
      proof -
        have "\<not> stale cs (tree w) (k, v)" using True by (simp add: stale_def)
        then show ?thesis using True by (simp add: stale_Cons)
      qed
      then have mF: "map_of F (tsFileName a) = Some v" using Some by (simp add: mapF k_def)
      have exu: "existsSync (tree u) (targetDir_of v)"
        using existsSync_same_shape [OF sh] True by simp
      have B: "\<exists>u1. sync_step a (F, c) u = Returned (F, c1) u1 \<and> shape (tree u1) = shape (tree u)"
        if reg: "writable_file (tree w) a"
      proof -
        from syncFile_simulated [OF wn sh reg sf, of F] obtain u1
          where su: "syncFile a (targetDir_of v) F u =
              Returned (ok, if ok then AList.update (tsFileName a) (path_basename (targetDir_of v)) F else F) u1"
            and shu: "shape (tree u1) = shape (tree u)"
          by blast
        have "(if ok then AList.update (tsFileName a) (path_basename (targetDir_of v)) F else F) = F"
          using mF by (simp add: bn update_triv)
        with su have "syncFile a (targetDir_of v) F u = Returned (ok, F) u1" by simp
        then have "sync_step a (F, c) u = Returned (F, c1) u1"
          using mF vne exu by (simp add: sync_step_exists c1)
        with shu show ?thesis by blast
      qed
      with A pl m1 show ?thesis by auto
    qed
  qed
  from facts have pl1: "\<forall>kv \<in> set m1. plain_name (snd kv)"
    and A: "filter (\<lambda>kv. \<not> stale cs (tree w1) kv) m1 = F"
    and B: "k \<notin> set inherited_names \<and> writable_file (tree w) a \<longrightarrow>
         (\<exists>u1. sync_step a (F, c) u = Returned (F, c1) u1 \<and> shape (tree u1) = shape (tree u))"
    by simp_all
  from Cons.IH [OF wn1 refl d1 pl1 lp]
  have mF: "m' = F"
    and kd: "\<forall>q. length q \<le> 3 \<longrightarrow> kind (tree w') q = kind (tree w1) q"
    using A by simp_all
  have kinds: "\<forall>q. length q \<le> 3 \<longrightarrow> kind (tree w') q = kind (tree w) q"
    using kd k1 by simp
  have rest: "shape (tree w') = shape (tree w) \<and>
      ((\<forall>b \<in> set (a # cs). tsFileName b \<notin> set inherited_names) \<longrightarrow>
         (\<exists>u'. sync_loop (a # cs) (m', c) u = Returned (m', c') u' \<and> shape (tree u') = shape (tree u)))"
    if reg: "\<forall>b \<in> set (a # cs). writable_file (tree w) b"
  proof -
    from reg have "writable_file (tree w) a" by simp
    then have sh1: "shape (tree w1) = shape (tree w)" by (rule s(7))
    have reg1: "\<forall>b \<in> set cs. writable_file (tree w1) b"
      using reg writable_file_same_shape [OF sh1] by simp
    from Cons.IH [OF wn1 refl d1 pl1 lp] reg1
    have shw: "shape (tree w') = shape (tree w)" using sh1 by simp
    have "\<exists>u'. sync_loop (a # cs) (m', c) u = Returned (m', c') u' \<and> shape (tree u') = shape (tree u)"
      if ni: "\<forall>b \<in> set (a # cs). tsFileName b \<notin> set inherited_names"
    proof -
      from ni B reg obtain u1 where su: "sync_step a (F, c) u = Returned (F, c1) u1"
        and shu: "shape (tree u1) = shape (tree u)"
        by (auto simp: k_def)
      have "shape (tree u1) = shape (tree w1)" using shu sh sh1 by simp
      from Cons.IH [OF wn1 this d1 pl1 lp] ni reg1
      obtain u' where "sync_loop cs (m', c1) u1 = Returned (m', c') u'"
        and "shape (tree u') = shape (tree u1)"
        by auto
      with su shu show ?thesis by (simp add: mF)
    qed
    with shw show ?thesis by blast
  qed
  from mF kinds rest show ?case unfolding F_def by blast
qed


section \<open>Two worlds of the same shape\<close>




lemma filter_directories_shape: "filter_directories (shape root) ds = filter_directories root ds"
proof (induction ds)
  case Nil
  show ?case by simp
next
  case (Cons d ds)
  show ?case
    by (cases "stat root (path_join [WEBRESOURCES_DIR, d])")
       (simp_all add: stat_shape Cons isDirectory_shape split: sum.splits)
qed

lemma getWebResourceDirs_shape:
  "getWebResourceDirs w =
     (if \<not> existsSync (shape (tree w)) WEBRESOURCES_DIR then Returned [] (say None WebResourcesDirNotFound w)
      else case readdirSync (shape (tree w)) WEBRESOURCES_DIR of
             Inl e \<Rightarrow> Thrown e w
           | Inr entries \<Rightarrow> reading (filter_directories (shape (tree w)) entries) w)"
  by (simp add: getWebResourceDirs_def existsSync_shape readdirSync_shape filter_directories_shape
      split: sum.splits)

lemma getWebResourceDirs_simulated:
  assumes "shape (tree u) = shape (tree w)" and "getWebResourceDirs w = Returned dirs w3"
  shows "\<exists>u3. getWebResourceDirs u = Returned dirs u3 \<and> tree u3 = tree u"
  using assms(2) unfolding getWebResourceDirs_shape [of w] getWebResourceDirs_shape [of u] assms(1)
  by (auto simp: reading_def tree_say split: if_splits sum.splits)

lemma getWebResourceInfo_isl:
  assumes "shape r1 = shape r2"
  shows "isl (getWebResourceInfo r1 d) = isl (getWebResourceInfo r2 d)"
  using isl_readFileSync_shape [OF assms, of "ymlPath d"] existsSync_same_shape [OF assms, of "ymlPath d"]
  by (cases "readFileSync r1 (ymlPath d)"; cases "readFileSync r2 (ymlPath d)")
     (auto simp: getWebResourceInfo_def)

lemma list_web_resources_simulated:
  assumes "shape (tree u) = shape (tree w)" and "list_web_resources i dirs w = Returned x w4"
  shows "\<exists>u4. list_web_resources i dirs u = Returned x u4 \<and> tree u4 = tree u"
  using assms
proof (induction dirs arbitrary: i w u)
  case Nil
  then show ?case by simp
next
  case (Cons d ds)
  from Cons.prems(2) obtain inf where gi: "getWebResourceInfo (tree w) d = Inr inf"
    and rest: "list_web_resources (i + 1) ds
        (say None (AvailableItem (i + 1) (or_else (Option.bind inf name) d)
           (or_else (Option.bind inf displayName) (js ''No display name''))) w) = Returned x w4"
    by (auto split: sum.splits)
  from getWebResourceInfo_isl [OF Cons.prems(1), of d] gi
  obtain inf' where gu: "getWebResourceInfo (tree u) d = Inr inf'"
    by (cases "getWebResourceInfo (tree u) d") auto
  define u1 where "u1 = say None (AvailableItem (i + 1) (or_else (Option.bind inf' name) d)
           (or_else (Option.bind inf' displayName) (js ''No display name''))) u"
  have "shape (tree u1) = shape (tree (say None (AvailableItem (i + 1) (or_else (Option.bind inf name) d)
           (or_else (Option.bind inf displayName) (js ''No display name''))) w))"
    using Cons.prems(1) by (simp add: u1_def tree_say)
  from Cons.IH [OF this rest] obtain u4
    where "list_web_resources (i + 1) ds u1 = Returned x u4" and "tree u4 = tree u1" by blast
  then show ?case using gu by (simp add: u1_def tree_say)
qed

lemma saveMapping_simulated:
  assumes "shape (tree u) = shape (tree w)" and "saveMapping m w = Returned x ws"
  shows "\<exists>us. saveMapping m2 u = Returned () us"
proof -
  from assms(2) obtain root' where "writeFileSync (tree w) CONFIG_FILE (stringify_table m) = Inr root'"
    by (auto simp: saveMapping_def writing_def split: sum.splits)
  with isl_writeFileSync_shape [OF assms(1), of CONFIG_FILE "stringify_table m2" "stringify_table m"]
  obtain root'' where "writeFileSync (tree u) CONFIG_FILE (stringify_table m2) = Inr root''"
    by (cases "writeFileSync (tree u) CONFIG_FILE (stringify_table m2)") auto
  then show ?thesis by (simp add: saveMapping_def writing_def)
qed

lemma saveMapping_overwrite:
  assumes "saveMapping m w = Returned x ws" and "existsSync (tree w) CONFIG_FILE"
  shows "shape (tree ws) = shape (tree w)"
proof -
  from assms(2) obtain n where "stat (tree w) CONFIG_FILE = Inr n"
    by (auto simp: existsSync_def split: sum.splits)
  moreover from saveMapping_Returned [OF assms(1)]
  have "writeFileSync (tree w) CONFIG_FILE (stringify_table m) = Inr (tree ws)" by simp
  ultimately show ?thesis using writeFileSync_overwrite by blast
qed

lemma persisted_exists: "persisted w = Some t \<Longrightarrow> existsSync (tree w) CONFIG_FILE"
  by (auto simp: persisted_def split: sum.splits intro: readFileSync_exists)

lemma syncWebResources_unfold:
  assumes "loaded_table w = Some t" and "existsSync (tree w) DIST_DIR" and "found \<noteq> []"
  shows "syncWebResources found w =
           (case getWebResourceDirs (world_after (loadMapping (say None SyncStarted w))) of
              Returned dirs w3 \<Rightarrow>
                (case list_web_resources 0 dirs (say None AvailableHeader w3) of
                   Returned x w4 \<Rightarrow>
                     (case sync_and_save found t (say None BlankLine w4) of
                        Returned n w5 \<Rightarrow> Returned (Some n) w5
                      | Thrown e w5 \<Rightarrow> Thrown e w5
                      | NotFollowed \<Rightarrow> NotFollowed)
                 | Thrown e w4 \<Rightarrow> Thrown e w4
                 | NotFollowed \<Rightarrow> NotFollowed)
            | Thrown e w3 \<Rightarrow> Thrown e w3
            | NotFollowed \<Rightarrow> NotFollowed)"
proof -
  have "loaded_table (say None SyncStarted w) = Some t"
    using assms(1) loaded_table_tree [of "say None SyncStarted w" w] by (simp add: tree_say)
  from loaded_table_Returned [OF this] obtain v w1
    where lm: "loadMapping (say None SyncStarted w) = Returned v w1"
      and tv: "table_of_json v = Some t"
      and t1: "tree w1 = tree w"
    by (auto simp: tree_say)
  have gc: "getCompiledFiles found w1 = Returned found w1"
    using assms(2) t1 by (simp add: getCompiledFiles_def)
  show ?thesis
    using assms(3) by (simp add: syncWebResources_def lm gc tv world_after_def split: outcome.splits)
qed

lemma tree_after_load: "tree (world_after (loadMapping (say None SyncStarted w))) = tree w"
proof -
  obtain v w1 where lm: "loadMapping (say None SyncStarted w) = Returned v w1"
    using loadMapping_never_throws_aux by blast
  from loadMapping_tree [OF lm] show ?thesis by (simp add: lm world_after_def tree_say)
qed

lemma syncWebResources_early:
  assumes "\<not> existsSync (tree w) DIST_DIR \<or> found = []"
  shows "syncWebResources found w =
           (case getWebResourceDirs (world_after (getCompiledFiles found (world_after (loadMapping (say None SyncStarted w))))) of
              Returned dirs w3 \<Rightarrow> Returned None (say None NoCompiledFiles w3)
            | Thrown e w3 \<Rightarrow> Thrown e w3
            | NotFollowed \<Rightarrow> NotFollowed)"
proof -
  obtain v w1 where lm: "loadMapping (say None SyncStarted w) = Returned v w1"
    using loadMapping_never_throws_aux by blast
  then have t1: "tree w1 = tree w"
    by (auto simp: loadMapping_cases tree_say split: if_splits sum.splits option.splits)
  have "\<exists>w2. getCompiledFiles found w1 = Returned [] w2"
    using assms t1 by (auto simp: getCompiledFiles_def)
  then obtain w2 where gc: "getCompiledFiles found w1 = Returned [] w2" by blast
  show ?thesis
    by (simp add: syncWebResources_def lm gc world_after_def split: outcome.splits)
qed


lemma tree_before_dirs:
  "tree (world_after (getCompiledFiles found (world_after (loadMapping (say None SyncStarted w))))) = tree w"
proof -
  obtain v w1 where lm: "loadMapping (say None SyncStarted w) = Returned v w1"
    using loadMapping_never_throws_aux by blast
  from loadMapping_tree [OF lm] have "tree w1 = tree w" by (simp add: tree_say)
  then show ?thesis
    by (simp add: lm world_after_def getCompiledFiles_def tree_say)
qed

lemma second_run_main:
  assumes wn: "well_named (tree w)"
    and per: "loaded_table w = Some t"
    and ex: "existsSync (tree w) CONFIG_FILE"
    and plain: "\<forall>kv \<in> set t. plain_name (snd kv)"
    and ni: "\<forall>a \<in> set found. tsFileName a \<notin> set inherited_names"
    and reg: "\<forall>a \<in> set found. writable_file (tree w) a"
    and dist: "existsSync (tree w) DIST_DIR"
    and ne: "found \<noteq> []"
    and run: "syncWebResources found w = Returned r w1"
  shows "\<exists>w2. syncWebResources found w1 = Returned r w2 \<and> persisted w2 = persisted w1"
proof -
  define b where "b = world_after (loadMapping (say None SyncStarted w))"
  define b1 where "b1 = world_after (loadMapping (say None SyncStarted w1))"
  have tb: "tree b = tree w" unfolding b_def by (rule tree_after_load)
  have tb1: "tree b1 = tree w1" unfolding b1_def by (rule tree_after_load)
  from run have "\<exists>dirs w3 x w4 n.
      getWebResourceDirs b = Returned dirs w3 \<and>
      list_web_resources 0 dirs (say None AvailableHeader w3) = Returned x w4 \<and>
      sync_and_save found t (say None BlankLine w4) = Returned n w1 \<and> r = Some n"
    unfolding syncWebResources_unfold [OF per dist ne] b_def by (auto split: outcome.splits)
  then obtain dirs w3 x w4 n
    where gd: "getWebResourceDirs b = Returned dirs w3"
      and lw: "list_web_resources 0 dirs (say None AvailableHeader w3) = Returned x w4"
      and ss: "sync_and_save found t (say None BlankLine w4) = Returned n w1"
      and r: "r = Some n"
    by blast
  have t3: "tree w3 = tree w" using getWebResourceDirs_Returned [OF gd] tb by simp
  have t4: "tree w4 = tree w" using list_web_resources_Returned [OF lw] t3 by (simp add: tree_say)
  define wl where "wl = say None BlankLine w4"
  have tl: "tree wl = tree w" using t4 by (simp add: wl_def tree_say)
  from sync_and_save_Returned [OF ss] obtain m' wl' ws
    where lp: "sync_loop found (t, 0) wl = Returned (m', n) wl'"
      and sv: "saveMapping m' wl' = Returned () ws"
      and t1: "tree w1 = tree ws"
    unfolding wl_def by blast
  have wnl: "well_named (tree wl)" using wn tl by simp
  have dt: "distinct (map fst t)" using per by (rule loaded_table_distinct)
  have regl: "\<forall>a \<in> set found. writable_file (tree wl) a" using reg tl by simp
  note pr = sync_loop_prunes [OF wnl _ dt plain lp]
  from pr [OF refl] regl have m': "m' = filter (\<lambda>kv. \<not> stale found (tree w) kv) t"
    and shl: "shape (tree wl') = shape (tree w)"
    by (simp_all add: tl)
  have dm: "distinct (map fst m')" unfolding m' using dt by (simp add: distinct_map_filter)
  have "existsSync (tree wl') CONFIG_FILE"
    using existsSync_same_shape [OF shl] ex by simp
  from saveMapping_overwrite [OF sv this] have shs: "shape (tree ws) = shape (tree w)"
    using shl by simp
  have sh1: "shape (tree w1) = shape (tree w)" using shs t1 by simp
  from saved_table_is_loaded [OF dm sv] have ps: "persisted ws = Some m'" by simp
  have per1: "persisted w1 = Some m'" using ps persisted_tree [OF t1] by simp
  have dist1: "existsSync (tree w1) DIST_DIR" using existsSync_same_shape [OF sh1] dist by simp
  have "shape (tree b1) = shape (tree b)"
    using sh1 tb tb1 by simp
  from getWebResourceDirs_simulated [OF this gd] obtain u3
    where gd2: "getWebResourceDirs b1 = Returned dirs u3"
      and tu3: "tree u3 = tree w1"
    using tb1 by auto
  have "shape (tree (say None AvailableHeader u3)) = shape (tree (say None AvailableHeader w3))"
    using sh1 tu3 t3 by (simp add: tree_say)
  from list_web_resources_simulated [OF this lw] obtain u4
    where lw2: "list_web_resources 0 dirs (say None AvailableHeader u3) = Returned x u4"
      and tu4: "tree u4 = tree w1"
    using tu3 by (auto simp: tree_say)
  define ul where "ul = say None BlankLine u4"
  have shu: "shape (tree ul) = shape (tree wl)" using tu4 sh1 tl by (simp add: ul_def tree_say)
  from pr [OF shu] ni regl obtain u'
    where lp2: "sync_loop found (m', 0) ul = Returned (m', n) u'"
      and shu': "shape (tree u') = shape (tree ul)"
    by auto
  have "shape (tree u') = shape (tree wl')" using shu' shu shl tl by simp
  from saveMapping_simulated [OF this sv, of m'] obtain us
    where sv2: "saveMapping m' u' = Returned () us" by blast
  define w2 where "w2 = (let w3 = say None (SyncComplete n) us
                         in if n > 0 then say None CommitHint w3 else w3)"
  have ss2: "sync_and_save found m' ul = Returned n w2"
    by (simp add: sync_and_save_def lp2 sv2 w2_def)
  have tw2: "tree w2 = tree us" by (simp add: w2_def Let_def tree_say)
  from saved_table_is_loaded [OF dm sv2] have "persisted us = Some m'" by simp
  then have p2: "persisted w2 = Some m'" using persisted_tree [OF tw2] by simp
  have "syncWebResources found w1 = Returned (Some n) w2"
    unfolding syncWebResources_unfold [OF persisted_loaded [OF per1] dist1 ne]
    by (simp add: gd2 [unfolded b1_def] lw2 ss2 [unfolded ul_def])
  with p2 per1 r show ?thesis by simp
qed

section \<open>A run that creates the mapping file\<close>

lemma stat_created_webresources:
  assumes "put root (path_resolve CONFIG_FILE) new = Inr root'"
  shows "stat root' WEBRESOURCES_DIR = stat root WEBRESOURCES_DIR"
    and "stat root' DIST_DIR = stat root DIST_DIR"
    and "plain_name d \<Longrightarrow>
         stat root' (path_join [WEBRESOURCES_DIR, d]) = stat root (path_join [WEBRESOURCES_DIR, d])"
    and "plain_name d \<Longrightarrow> stat root' (ymlPath d) = stat root (ymlPath d)"
proof -
  note put = assms [unfolded path_resolve_CONFIG]
  have src: "js ''src'' \<noteq> js ''webresource-mapping.json''" by code_simp
  have dst: "js ''dist'' \<noteq> js ''webresource-mapping.json''" by code_simp
  have dd: "path_resolve DIST_DIR = [js ''dist'']" by code_simp
  have yml: "plain_name (js ''webresource.yml'')" by code_simp
  have wr: "WEBRESOURCES_DIR \<noteq> []" by code_simp
  show "stat root' WEBRESOURCES_DIR = stat root WEBRESOURCES_DIR"
    using stat_put_other [OF put path_resolve_WEBRESOURCES src] .
  show "stat root' DIST_DIR = stat root DIST_DIR"
    using stat_put_other [OF put dd dst] .
  show "stat root' (path_join [WEBRESOURCES_DIR, d]) = stat root (path_join [WEBRESOURCES_DIR, d])"
    if "plain_name d"
    using stat_put_other [OF put _ src, of "path_join [WEBRESOURCES_DIR, d]"]
    by (simp add: path_resolve_join [OF that] path_resolve_WEBRESOURCES)
  show "stat root' (ymlPath d) = stat root (ymlPath d)" if "plain_name d"
    using stat_put_other [OF put _ src, of "ymlPath d"]
    by (simp add: ymlPath_def path_resolve_join_three [OF that yml wr] path_resolve_WEBRESOURCES)
qed

lemma filter_directories_created:
  assumes "put root (path_resolve CONFIG_FILE) new = Inr root'" and "\<forall>d \<in> set ds. plain_name d"
  shows "filter_directories root' ds = filter_directories root ds"
  using assms(2)
proof (induction ds)
  case Nil
  show ?case by simp
next
  case (Cons d ds)
  then show ?case
    by (simp add: stat_created_webresources(3) [OF assms(1)] split: sum.splits)
qed

lemma filter_directories_subset:
  "filter_directories root ds = Inr dirs \<Longrightarrow> set dirs \<subseteq> set ds"
proof (induction ds arbitrary: dirs)
  case Nil
  then show ?case by simp
next
  case (Cons d ds)
  then show ?case by (auto split: sum.splits if_splits)
qed

lemma getWebResourceDirs_created:
  assumes wn: "well_named (tree w)"
    and put: "put (tree w) (path_resolve CONFIG_FILE) new = Inr (tree u)"
    and gd: "getWebResourceDirs w = Returned dirs w3"
  shows "\<exists>u3. getWebResourceDirs u = Returned dirs u3 \<and> tree u3 = tree u"
    and "\<forall>d \<in> set dirs. plain_name d"
proof -
  note st = stat_created_webresources(1) [OF put]
  have ex: "existsSync (tree u) WEBRESOURCES_DIR = existsSync (tree w) WEBRESOURCES_DIR"
    by (simp add: existsSync_def st)
  have rd: "readdirSync (tree u) WEBRESOURCES_DIR = readdirSync (tree w) WEBRESOURCES_DIR"
    by (simp add: readdirSync_def st)
  show "\<forall>d \<in> set dirs. plain_name d"
  proof (cases "existsSync (tree w) WEBRESOURCES_DIR")
    case False
    with gd show ?thesis by (simp add: getWebResourceDirs_def)
  next
    case True
    with gd obtain entries where en: "readdirSync (tree w) WEBRESOURCES_DIR = Inr entries"
      and fd: "filter_directories (tree w) entries = Inr dirs"
      by (auto simp: getWebResourceDirs_def reading_def split: sum.splits)
    from filter_directories_subset [OF fd] readdir_child(1) [OF wn en] show ?thesis by blast
  qed
  show "\<exists>u3. getWebResourceDirs u = Returned dirs u3 \<and> tree u3 = tree u"
  proof (cases "existsSync (tree w) WEBRESOURCES_DIR")
    case False
    with gd ex show ?thesis by (simp add: getWebResourceDirs_def tree_say)
  next
    case True
    with gd obtain entries where en: "readdirSync (tree w) WEBRESOURCES_DIR = Inr entries"
      and fd: "filter_directories (tree w) entries = Inr dirs"
      by (auto simp: getWebResourceDirs_def reading_def split: sum.splits)
    have "\<forall>d \<in> set entries. plain_name d" using readdir_child(1) [OF wn en] by blast
    from filter_directories_created [OF put this] fd
    have "filter_directories (tree u) entries = Inr dirs" by simp
    with True ex rd en show ?thesis by (simp add: getWebResourceDirs_def reading_def)
  qed
qed

lemma getWebResourceInfo_created:
  assumes "put root (path_resolve CONFIG_FILE) new = Inr root'" and "plain_name d"
  shows "getWebResourceInfo root' d = getWebResourceInfo root d"
  by (simp add: getWebResourceInfo_def existsSync_def readFileSync_def
      stat_created_webresources(4) [OF assms])

lemma list_web_resources_created:
  assumes "put (tree w) (path_resolve CONFIG_FILE) new = Inr (tree u)"
    and "\<forall>d \<in> set dirs. plain_name d"
    and "list_web_resources i dirs w = Returned x w4"
  shows "\<exists>u4. list_web_resources i dirs u = Returned x u4 \<and> tree u4 = tree u"
  using assms
proof (induction dirs arbitrary: i w u)
  case Nil
  then show ?case by simp
next
  case (Cons d ds)
  from Cons.prems(3) obtain inf where gi: "getWebResourceInfo (tree w) d = Inr inf"
    and rest: "list_web_resources (i + 1) ds
        (say None (AvailableItem (i + 1) (or_else (Option.bind inf name) d)
           (or_else (Option.bind inf displayName) (js ''No display name''))) w) = Returned x w4"
    by (auto split: sum.splits)
  have gu: "getWebResourceInfo (tree u) d = Inr inf"
    using getWebResourceInfo_created [OF Cons.prems(1)] Cons.prems(2) gi by simp
  define u1 where "u1 = say None (AvailableItem (i + 1) (or_else (Option.bind inf name) d)
           (or_else (Option.bind inf displayName) (js ''No display name''))) u"
  have "put (tree (say None (AvailableItem (i + 1) (or_else (Option.bind inf name) d)
           (or_else (Option.bind inf displayName) (js ''No display name''))) w))
           (path_resolve CONFIG_FILE) new = Inr (tree u1)"
    using Cons.prems(1) by (simp add: u1_def tree_say)
  from Cons.IH [OF this _ rest] Cons.prems(2) obtain u4
    where "list_web_resources (i + 1) ds u1 = Returned x u4" and "tree u4 = tree u1" by auto
  then show ?case using gu by (simp add: u1_def tree_say)
qed

lemma sync_loop_empty:
  assumes "\<forall>a \<in> set cs. tsFileName a \<notin> set inherited_names"
  shows "\<exists>w'. sync_loop cs ([], c) w = Returned ([], c) w' \<and> tree w' = tree w"
  using assms
proof (induction cs arbitrary: w)
  case Nil
  show ?case by simp
next
  case (Cons a cs)
  then have "sync_step a ([], c) w = Returned ([], c) (say (Some a) (NoMappingFor (tsFileName a)) w)"
    by (simp add: sync_step_unmapped)
  moreover from Cons obtain w'
    where "sync_loop cs ([], c) (say (Some a) (NoMappingFor (tsFileName a)) w) = Returned ([], c) w'"
      and "tree w' = tree (say (Some a) (NoMappingFor (tsFileName a)) w)"
    by fastforce
  ultimately show ?case by (simp add: tree_say)
qed

lemma second_run_fresh:
  assumes wn: "well_named (tree w)"
    and per: "loaded_table w = Some t"
    and nex: "\<not> existsSync (tree w) CONFIG_FILE"
    and ni: "\<forall>a \<in> set found. tsFileName a \<notin> set inherited_names"
    and dist: "existsSync (tree w) DIST_DIR"
    and ne: "found \<noteq> []"
    and run: "syncWebResources found w = Returned r w1"
  shows "\<exists>w2. syncWebResources found w1 = Returned r w2 \<and> persisted w2 = persisted w1"
proof -
  have t: "t = []"
    using per nex by (simp add: loaded_table_def loadMapping_cases returned_def)
  define b where "b = world_after (loadMapping (say None SyncStarted w))"
  define b1 where "b1 = world_after (loadMapping (say None SyncStarted w1))"
  have tb: "tree b = tree w" unfolding b_def by (rule tree_after_load)
  have tb1: "tree b1 = tree w1" unfolding b1_def by (rule tree_after_load)
  from run have "\<exists>dirs w3 x w4 n.
      getWebResourceDirs b = Returned dirs w3 \<and>
      list_web_resources 0 dirs (say None AvailableHeader w3) = Returned x w4 \<and>
      sync_and_save found t (say None BlankLine w4) = Returned n w1 \<and> r = Some n"
    unfolding syncWebResources_unfold [OF per dist ne] b_def by (auto split: outcome.splits)
  then obtain dirs w3 x w4 n
    where gd: "getWebResourceDirs b = Returned dirs w3"
      and lw: "list_web_resources 0 dirs (say None AvailableHeader w3) = Returned x w4"
      and ss: "sync_and_save found [] (say None BlankLine w4) = Returned n w1"
      and r: "r = Some n"
    unfolding t by blast
  have t3: "tree w3 = tree w" using getWebResourceDirs_Returned [OF gd] tb by simp
  have t4: "tree w4 = tree w" using list_web_resources_Returned [OF lw] t3 by (simp add: tree_say)
  define wl where "wl = say None BlankLine w4"
  have tl: "tree wl = tree w" using t4 by (simp add: wl_def tree_say)
  from sync_and_save_Returned [OF ss] obtain m' wl' ws
    where lp: "sync_loop found ([], 0) wl = Returned (m', n) wl'"
      and sv: "saveMapping m' wl' = Returned () ws"
      and t1: "tree w1 = tree ws"
    unfolding wl_def by blast
  from sync_loop_empty [OF ni, of 0 wl] lp
  have m': "m' = []" and n: "n = 0" and tl': "tree wl' = tree w"
    using tl by auto
  from saveMapping_Returned [OF sv]
  have wr: "writeFileSync (tree w) CONFIG_FILE (stringify_table []) = Inr (tree w1)"
    by (simp add: m' tl' t1)
  from writeFileSync_put [OF wr]
  have put: "put (tree w) (path_resolve CONFIG_FILE) (stringify_table []) = Inr (tree w1)"
    and notrail: "\<not> (CONFIG_FILE \<noteq> [] \<and> last CONFIG_FILE = slash)"
    by simp_all
  have "persisted ws = Some []"
    using saved_table_is_loaded [OF _ sv] by (simp add: m')
  then have per1: "persisted w1 = Some []" using persisted_tree [OF t1] by simp
  have dist1: "existsSync (tree w1) DIST_DIR"
    using dist by (simp add: existsSync_def stat_created_webresources(2) [OF put])
  have putb: "put (tree b) (path_resolve CONFIG_FILE) (stringify_table []) = Inr (tree b1)"
    using put tb tb1 by simp
  have wnb: "well_named (tree b)" using wn tb by simp
  from getWebResourceDirs_created [OF wnb putb gd] obtain u3
    where gd2: "getWebResourceDirs b1 = Returned dirs u3"
      and tu3: "tree u3 = tree w1"
      and pd: "\<forall>d \<in> set dirs. plain_name d"
    using tb1 by auto
  have "put (tree (say None AvailableHeader w3)) (path_resolve CONFIG_FILE) (stringify_table []) =
      Inr (tree (say None AvailableHeader u3))"
    using put t3 tu3 by (simp add: tree_say)
  from list_web_resources_created [OF this pd lw] obtain u4
    where lw2: "list_web_resources 0 dirs (say None AvailableHeader u3) = Returned x u4"
      and tu4: "tree u4 = tree w1"
    using tu3 by (auto simp: tree_say)
  define ul where "ul = say None BlankLine u4"
  from sync_loop_empty [OF ni, of 0 ul] obtain u'
    where lp2: "sync_loop found ([], 0) ul = Returned ([], 0) u'"
      and tu': "tree u' = tree w1"
    using tu4 by (auto simp: ul_def tree_say)
  from put_again [OF put, of "stringify_table []"] obtain root''
    where "put (tree w1) (path_resolve CONFIG_FILE) (stringify_table []) = Inr root''" by blast
  then have "writeFileSync (tree u') CONFIG_FILE (stringify_table []) = Inr root''"
    using notrail tu' by (simp add: writeFileSync_def)
  then have sv2: "saveMapping [] u' = Returned () (u'\<lparr>tree := root''\<rparr>)"
    by (simp add: saveMapping_def writing_def)
  define us where "us = u'\<lparr>tree := root''\<rparr>"
  define w2 where "w2 = say None (SyncComplete 0) us"
  have ss2: "sync_and_save found [] ul = Returned 0 w2"
    by (simp add: sync_and_save_def lp2 sv2 w2_def us_def)
  have tw2: "tree w2 = tree us" by (simp add: w2_def tree_say)
  from saved_table_is_loaded [OF _ sv2] have "persisted us = Some []" by (simp add: us_def)
  then have p2: "persisted w2 = Some []" using persisted_tree [OF tw2] by simp
  have "syncWebResources found w1 = Returned (Some 0) w2"
    unfolding syncWebResources_unfold [OF persisted_loaded [OF per1] dist1 ne]
    by (simp add: gd2 [unfolded b1_def] lw2 ss2 [unfolded ul_def])
  with p2 per1 r n show ?thesis by simp
qed

lemma second_run_early:
  assumes early: "\<not> existsSync (tree w) DIST_DIR \<or> found = []"
    and run: "syncWebResources found w = Returned r w1"
  shows "\<exists>w2. syncWebResources found w1 = Returned r w2 \<and> persisted w2 = persisted w1"
proof -
  define b where "b = world_after (getCompiledFiles found (world_after (loadMapping (say None SyncStarted w))))"
  define b1 where "b1 = world_after (getCompiledFiles found (world_after (loadMapping (say None SyncStarted w1))))"
  have tb: "tree b = tree w" unfolding b_def by (rule tree_before_dirs)
  have tb1: "tree b1 = tree w1" unfolding b1_def by (rule tree_before_dirs)
  from run have "\<exists>dirs w3. getWebResourceDirs b = Returned dirs w3 \<and> r = None \<and> w1 = say None NoCompiledFiles w3"
    unfolding syncWebResources_early [OF early] b_def by (auto split: outcome.splits)
  then obtain dirs w3 where gd: "getWebResourceDirs b = Returned dirs w3" and r: "r = None"
    and w1: "w1 = say None NoCompiledFiles w3"
    by blast
  have t1: "tree w1 = tree w"
    using getWebResourceDirs_Returned [OF gd] tb by (simp add: w1 tree_say)
  then have early1: "\<not> existsSync (tree w1) DIST_DIR \<or> found = []" using early by simp
  have "shape (tree b1) = shape (tree b)" using tb tb1 t1 by simp
  from getWebResourceDirs_simulated [OF this gd] obtain u3
    where gd1: "getWebResourceDirs b1 = Returned dirs u3" and tu3: "tree u3 = tree b1" by blast
  have "syncWebResources found w1 = Returned None (say None NoCompiledFiles u3)"
    unfolding syncWebResources_early [OF early1] using gd1 by (simp add: b1_def)
  moreover have "persisted (say None NoCompiledFiles u3) = persisted w1"
    using tu3 tb1 by (simp add: persisted_def tree_say)
  ultimately show ?thesis using r by simp
qed

section \<open>The key of a path that ends in \<open>.js\<close>\<close>

lemma endsWith_split: "endsWith a p \<Longrightarrow> \<exists>b. a = b @ p"
  unfolding endsWith_def by (metis append_take_drop_id)

lemma split_on_append_free:
  "d \<notin> set ys \<Longrightarrow>
   split_on d (xs @ ys) = butlast (split_on d xs) @ [last (split_on d xs) @ ys]"
proof (induction xs)
  case Nil
  then show ?case by (simp add: split_on_free)
next
  case (Cons c cs)
  obtain s ss where sp: "split_on d cs = s # ss"
    using split_on_nonempty [of d cs] by (cases "split_on d cs") auto
  show ?case
  proof (cases "c = d")
    case True
    then show ?thesis using Cons sp by simp
  next
    case False
    then show ?thesis using Cons sp by (cases ss) auto
  qed
qed

lemma resolve_js:
  "\<exists>pre stem. path_resolve (b @ js ''.js'') = pre @ [stem @ js ''.js'']"
proof -
  have free: "slash \<notin> set (js ''.js'')" by (simp add: js_def slash_def)
  define stem where "stem = last (split_on slash b)"
  have n1: "stem @ js ''.js'' \<noteq> js ''.''"
  proof
    assume "stem @ js ''.js'' = js ''.''"
    then have "length (stem @ js ''.js'') = length (js ''.'')" by simp
    then show False by (simp add: js_def)
  qed
  have n2: "stem @ js ''.js'' \<noteq> js ''..''"
  proof
    assume "stem @ js ''.js'' = js ''..''"
    then have "length (stem @ js ''.js'') = length (js ''..'')" by simp
    then show False by (simp add: js_def)
  qed
  have "stem @ js ''.js'' \<noteq> []" by (simp add: js_def)
  with n1 n2 have "clean (stem @ js ''.js'')" by (simp add: clean_def)
  then have "path_resolve (b @ js ''.js'') =
      norm_segs False [] (butlast (split_on slash b)) @ [stem @ js ''.js'']"
    unfolding path_resolve_def split_on_append_free [OF free] stem_def
    by (simp add: norm_segs_append norm_segs_single del: norm_segs.simps)
  then show ?thesis by blast
qed


lemma path_resolve_DIST: "path_resolve DIST_DIR = [js ''dist'']"
  by (simp add: path_resolve_def DIST_DIR_def js_def slash_def)

lemma relative_js:
  assumes "path_resolve a = pre @ [stem @ js ''.js'']"
  shows "\<exists>front. relativePath a = front @ js ''.js''"
proof -
  define seg where "seg = stem @ js ''.js''"
  have ne: "seg \<noteq> js ''dist''"
  proof
    assume "seg = js ''dist''"
    then have "last seg = last (js ''dist'')" by simp
    then show False by (simp add: seg_def js_def)
  qed
  have "\<exists>fs ts0. strip_common [js ''dist''] (pre @ [seg]) = (fs, ts0 @ [seg])"
  proof (cases pre)
    case Nil
    then show ?thesis using ne by auto
  next
    case (Cons p ps)
    then show ?thesis by (cases ps) auto
  qed
  then obtain fs ts0 where sc: "strip_common [js ''dist''] (pre @ [seg]) = (fs, ts0 @ [seg])"
    by blast
  have "relativePath a = join_with [slash] ((replicate (length fs) (js ''..'') @ ts0) @ [seg])"
    using assms sc by (simp add: relativePath_def path_relative_def path_resolve_DIST seg_def)
  then have "\<exists>x. relativePath a = x @ seg"
    unfolding join_with_snoc by (metis append_Nil append_assoc)
  then show ?thesis unfolding seg_def by (metis append_assoc)
qed

lemma replace_first_occurs:
  "pat \<noteq> [] \<Longrightarrow> \<exists>before after. replace_first pat rep (y @ pat @ z) = before @ rep @ after"
proof (induction y)
  case Nil
  then obtain c cs where "pat @ z = c # cs" by (cases "pat @ z") auto
  moreover have "startsWith (pat @ z) pat" by (simp add: startsWith_def)
  ultimately have "replace_first pat rep (pat @ z) = [] @ rep @ drop (length pat) (pat @ z)"
    by (metis append_Nil replace_first.simps(2))
  then show ?case by (metis append_Nil)
next
  case (Cons c cs)
  then obtain before after where IH: "replace_first pat rep (cs @ pat @ z) = before @ rep @ after"
    by blast
  show ?case
  proof (cases "startsWith ((c # cs) @ pat @ z) pat")
    case True
    then have "replace_first pat rep ((c # cs) @ pat @ z) =
        [] @ rep @ drop (length pat) ((c # cs) @ pat @ z)" by simp
    then show ?thesis by blast
  next
    case False
    then have "replace_first pat rep ((c # cs) @ pat @ z) = (c # before) @ rep @ after"
      using IH by simp
    then show ?thesis by blast
  qed
qed

lemma key_has_dot: "endsWith a (js ''.js'') \<Longrightarrow> 0x2E \<in> set (tsFileName a)"
proof -
  assume "endsWith a (js ''.js'')"
  then obtain b where "a = b @ js ''.js''" using endsWith_split by blast
  with resolve_js [of b] obtain pre stem where "path_resolve a = pre @ [stem @ js ''.js'']"
    by auto
  from relative_js [OF this] obtain front where "relativePath a = front @ js ''.js'' @ []"
    by auto
  moreover have "js ''.js'' \<noteq> []" by (simp add: js_def)
  ultimately obtain before after
    where "tsFileName a = before @ js ''.ts'' @ after"
    unfolding tsFileName_def using replace_first_occurs by metis
  then show ?thesis by (simp add: js_def)
qed

lemma inherited_no_dot: "n \<in> set inherited_names \<Longrightarrow> 0x2E \<notin> set n"
  by (auto simp: inherited_names_def js_def)

lemma key_not_inherited: "endsWith a (js ''.js'') \<Longrightarrow> tsFileName a \<notin> set inherited_names"
  using key_has_dot inherited_no_dot by blast


section \<open>A run only prunes\<close>

text \<open>
  C9, as amended. Let the values of the loaded table be plain folder names (not empty,
  without a separator, neither \<open>.\<close> nor \<open>..\<close>), and let the run reach its end. The
  table that the run persists is the loaded table without its stale entries, in the
  same order: no key is added, every key that survives keeps its value, and a key is
  removed exactly when it is the key of a discovered artifact and the folder that its
  value names does not exist.
\<close>

theorem reconciler_only_prunes:
  assumes wn: "well_named (tree w)"
    and per: "loaded_table w = Some t"
    and plain: "\<forall>kv \<in> set t. plain_name (snd kv)"
    and dist: "existsSync (tree w) DIST_DIR"
    and ne: "found \<noteq> []"
    and run: "syncWebResources found w = Returned r w'"
  shows "persisted w' = Some (filter (\<lambda>kv. \<not> stale found (tree w) kv) t) \<and>
         (\<forall>k. map_of (filter (\<lambda>kv. \<not> stale found (tree w) kv) t) k =
              (case map_of t k of
                 None \<Rightarrow> None
               | Some v \<Rightarrow> if stale found (tree w) (k, v) then None else Some v))"
proof -
  from syncWebResources_Returned [OF per dist ne run] obtain n wl
    where wl: "tree wl = tree w"
      and ss: "sync_and_save found t wl = Returned n w'"
    by blast
  from sync_and_save_Returned [OF ss] obtain m' wl' ws
    where lp: "sync_loop found (t, 0) wl = Returned (m', n) wl'"
      and sv: "saveMapping m' wl' = Returned () ws"
      and ws: "tree w' = tree ws"
    by blast
  have wnl: "well_named (tree wl)" using wn wl by simp
  have dt: "distinct (map fst t)" using per by (rule loaded_table_distinct)
  from sync_loop_prunes [OF wnl refl dt plain lp]
  have m': "m' = filter (\<lambda>kv. \<not> stale found (tree w) kv) t" by (simp add: wl)
  have dm: "distinct (map fst m')" unfolding m' using dt by (simp add: distinct_map_filter)
  from saved_table_is_loaded [OF dm sv] have "persisted ws = Some m'" by simp
  then have "persisted w' = Some m'" using persisted_tree [OF ws] by simp
  moreover have "map_of (filter (\<lambda>kv. \<not> stale found (tree w) kv) t) k =
      (case map_of t k of None \<Rightarrow> None
       | Some v \<Rightarrow> if stale found (tree w) (k, v) then None else Some v)" for k
    by (simp add: map_of_filter_distinct [OF dt] split: option.splits)
  ultimately show ?thesis by (simp add: m')
qed

theorem reconciler_only_prunes_witness:
  "persisted (world_after (syncWebResources locked_found locked_world)) =
     Some (filter (\<lambda>kv. \<not> stale locked_found (tree locked_world) kv) locked_table) \<and>
   filter (\<lambda>kv. \<not> stale locked_found (tree locked_world) kv) locked_table =
     [(js ''widgetForm.ts'', js ''folder-123''), (js ''other.ts'', js ''folder-456'')] \<and>
   loaded_table locked_world = Some locked_table"
proof -
  have "filter (\<lambda>kv. \<not> stale locked_found (tree locked_world) kv) locked_table =
      [(js ''widgetForm.ts'', js ''folder-123''), (js ''other.ts'', js ''folder-456'')]"
    using reconciler_only_prunes [OF locked_facts(1,2,5,3,4) locked_run] locked_persisted
    by simp
  then show ?thesis
    using reconciler_only_prunes [OF locked_facts(1,2,5,3,4) locked_run] locked_facts(2)
    by simp
qed

text \<open>
  C9 as stated fails: where the value of an entry is not the base name of its target
  folder, a sync rewrites it. The entry \<open>widgetForm.ts\<close> survives the run and its value
  changes from \<open>folder-123/\<close> to \<open>folder-123\<close>.
\<close>

theorem reconciler_rewrites_value_counterexample:
  "persisted slash_world = Some [(js ''widgetForm.ts'', js ''folder-123/'')] \<and>
   returned (syncWebResources [js ''dist/widgetForm.js''] slash_world) = Some (Some 1) \<and>
   persisted (world_after (syncWebResources [js ''dist/widgetForm.js''] slash_world)) =
     Some [(js ''widgetForm.ts'', js ''folder-123'')] \<and>
   js ''folder-123/'' \<noteq> js ''folder-123''"
  by code_simp


section \<open>Running twice\<close>

text \<open>
  C4, as amended. Let the values of the loaded table be plain folder names, and let
  every discovered path end in \<open>.js\<close> and name a regular file that may be written.
  When a run returns, a second run on the world that it leaves, with the same
  discovered paths, returns too; it reports the same count as the first run, every
  mapped artifact being copied again; and it persists the same table.
\<close>

theorem second_run_repeats_first:
  assumes wn: "well_named (tree w)"
    and per: "loaded_table w = Some t"
    and plain: "\<forall>kv \<in> set t. plain_name (snd kv)"
    and ext: "\<forall>a \<in> set found. endsWith a (js ''.js'')"
    and reg: "\<forall>a \<in> set found. writable_file (tree w) a"
    and run: "syncWebResources found w = Returned r w1"
  shows "\<exists>w2. syncWebResources found w1 = Returned r w2 \<and> persisted w2 = persisted w1"
proof -
  have ni: "\<forall>a \<in> set found. tsFileName a \<notin> set inherited_names"
    using ext key_not_inherited by blast
  consider (early) "\<not> existsSync (tree w) DIST_DIR \<or> found = []"
    | (fresh) "existsSync (tree w) DIST_DIR" "found \<noteq> []" "\<not> existsSync (tree w) CONFIG_FILE"
    | (main) "existsSync (tree w) DIST_DIR" "found \<noteq> []" "existsSync (tree w) CONFIG_FILE"
    by blast
  then show ?thesis
  proof cases
    case early
    from second_run_early [OF this run] show ?thesis .
  next
    case fresh
    from second_run_fresh [OF wn per fresh(3) ni fresh(1,2) run] show ?thesis .
  next
    case main
    from second_run_main [OF wn per main(3) plain ni reg main(1,2) run] show ?thesis .
  qed
qed

theorem second_run_repeats_first_witness:
  "returned (syncWebResources [js ''dist/widgetForm.js''] example_world) = Some (Some 1) \<and>
   returned (syncWebResources [js ''dist/widgetForm.js'']
     (world_after (syncWebResources [js ''dist/widgetForm.js''] example_world))) = Some (Some 1) \<and>
   persisted (world_after (syncWebResources [js ''dist/widgetForm.js'']
     (world_after (syncWebResources [js ''dist/widgetForm.js''] example_world)))) =
   persisted (world_after (syncWebResources [js ''dist/widgetForm.js''] example_world))"
proof -
  define w1 where "w1 = world_after (syncWebResources [js ''dist/widgetForm.js''] example_world)"
  have run: "syncWebResources [js ''dist/widgetForm.js''] example_world = Returned (Some 1) w1"
    unfolding w1_def by (rule example_run)
  from second_run_repeats_first [OF example_facts run] obtain w2
    where r2: "syncWebResources [js ''dist/widgetForm.js''] w1 = Returned (Some 1) w2"
      and p2: "persisted w2 = persisted w1"
    by blast
  have a: "returned (syncWebResources [js ''dist/widgetForm.js''] example_world) = Some (Some 1)"
    by (simp only: run returned_def outcome.case)
  have b: "returned (syncWebResources [js ''dist/widgetForm.js''] w1) = Some (Some 1)"
    by (simp only: r2 returned_def outcome.case)
  have c: "world_after (syncWebResources [js ''dist/widgetForm.js''] w1) = w2"
    by (simp only: r2 world_after_def outcome.case)
  from a b c p2 show ?thesis
    unfolding w1_def by simp
qed

text \<open>
  C4 as stated fails: the script has no notion of a file that is already synced, and
  the count of the second run is the number of files that it copied, here one.
\<close>

theorem second_run_count_counterexample:
  "returned (syncWebResources [js ''dist/widgetForm.js''] example_world) = Some (Some 1) \<and>
   returned (syncWebResources [js ''dist/widgetForm.js'']
     (world_after (syncWebResources [js ''dist/widgetForm.js''] example_world))) = Some (Some 1) \<and>
   Some (Some (1::nat)) \<noteq> Some (Some 0)"
  by code_simp


end
